theory Spec2Isabelle
  imports Complex_Main
begin

section \<open>numpy float64 scalars\<close>

text \<open>
  The pricer of \<^verbatim>\<open>notebooks/binomial_tree.ipynb\<close> computes with numpy float64 values.
  A finite value is carried as the real number it stands for: rounding, overflow,
  underflow and the sign of zero are not modelled, so where float64 arithmetic
  overflows to an infinity, underflows to zero or rounds \<open>exp x\<close> to exactly 1, the
  operations below keep the exact real. The special values are, since numpy's
  arithmetic does not raise on them: a division by zero gives an infinity or NaN
  (with a warning only), the square root of a negative number gives NaN, and NaN
  spreads through every operation, \<^verbatim>\<open>np.maximum\<close> included. What is proved below
  of exceptions, NaN, signs, array shapes and equalities between two calls does not
  rest on exact arithmetic; what is proved of the value of a finite result is proved
  of exact real arithmetic, and the general statements take finiteness as a
  hypothesis instead of concluding it.
\<close>

datatype fl = Fin real | PInf | NInf | NaN

fun fl_neg :: "fl \<Rightarrow> fl" where
  "fl_neg (Fin a) = Fin (- a)"
| "fl_neg PInf = NInf"
| "fl_neg NInf = PInf"
| "fl_neg NaN = NaN"

fun fl_add :: "fl \<Rightarrow> fl \<Rightarrow> fl" where
  "fl_add NaN y = NaN"
| "fl_add (Fin a) NaN = NaN"
| "fl_add PInf NaN = NaN"
| "fl_add NInf NaN = NaN"
| "fl_add (Fin a) (Fin b) = Fin (a + b)"
| "fl_add (Fin a) PInf = PInf"
| "fl_add (Fin a) NInf = NInf"
| "fl_add PInf (Fin b) = PInf"
| "fl_add PInf PInf = PInf"
| "fl_add PInf NInf = NaN"
| "fl_add NInf (Fin b) = NInf"
| "fl_add NInf NInf = NInf"
| "fl_add NInf PInf = NaN"

definition fl_sub :: "fl \<Rightarrow> fl \<Rightarrow> fl" where
  "fl_sub x y = fl_add x (fl_neg y)"

text \<open>The infinity whose sign is that of a nonzero real.\<close>

definition inf_of_sign :: "real \<Rightarrow> fl" where
  "inf_of_sign a = (if 0 < a then PInf else NInf)"

fun fl_mul :: "fl \<Rightarrow> fl \<Rightarrow> fl" where
  "fl_mul NaN y = NaN"
| "fl_mul (Fin a) NaN = NaN"
| "fl_mul PInf NaN = NaN"
| "fl_mul NInf NaN = NaN"
| "fl_mul (Fin a) (Fin b) = Fin (a * b)"
| "fl_mul (Fin a) PInf = (if a = 0 then NaN else inf_of_sign a)"
| "fl_mul (Fin a) NInf = (if a = 0 then NaN else inf_of_sign (- a))"
| "fl_mul PInf (Fin b) = (if b = 0 then NaN else inf_of_sign b)"
| "fl_mul NInf (Fin b) = (if b = 0 then NaN else inf_of_sign (- b))"
| "fl_mul PInf PInf = PInf"
| "fl_mul PInf NInf = NInf"
| "fl_mul NInf PInf = NInf"
| "fl_mul NInf NInf = PInf"

fun fl_div :: "fl \<Rightarrow> fl \<Rightarrow> fl" where
  "fl_div NaN y = NaN"
| "fl_div (Fin a) NaN = NaN"
| "fl_div PInf NaN = NaN"
| "fl_div NInf NaN = NaN"
| "fl_div (Fin a) (Fin b) =
     (if b = 0 then (if a = 0 then NaN else inf_of_sign a) else Fin (a / b))"
| "fl_div (Fin a) PInf = Fin 0"
| "fl_div (Fin a) NInf = Fin 0"
| "fl_div PInf (Fin b) = (if 0 \<le> b then PInf else NInf)"
| "fl_div NInf (Fin b) = (if 0 \<le> b then NInf else PInf)"
| "fl_div PInf PInf = NaN"
| "fl_div PInf NInf = NaN"
| "fl_div NInf PInf = NaN"
| "fl_div NInf NInf = NaN"

text \<open>\<^verbatim>\<open>np.maximum\<close> on two scalars: the larger one, NaN if either is NaN.\<close>

fun fl_max :: "fl \<Rightarrow> fl \<Rightarrow> fl" where
  "fl_max NaN y = NaN"
| "fl_max (Fin a) NaN = NaN"
| "fl_max PInf NaN = NaN"
| "fl_max NInf NaN = NaN"
| "fl_max (Fin a) (Fin b) = Fin (max a b)"
| "fl_max PInf (Fin b) = PInf"
| "fl_max PInf PInf = PInf"
| "fl_max PInf NInf = PInf"
| "fl_max (Fin a) PInf = PInf"
| "fl_max NInf PInf = PInf"
| "fl_max NInf (Fin b) = Fin b"
| "fl_max (Fin a) NInf = Fin a"
| "fl_max NInf NInf = NInf"

fun fl_exp :: "fl \<Rightarrow> fl" where
  "fl_exp (Fin a) = Fin (exp a)"
| "fl_exp PInf = PInf"
| "fl_exp NInf = Fin 0"
| "fl_exp NaN = NaN"

fun fl_sqrt :: "fl \<Rightarrow> fl" where
  "fl_sqrt (Fin a) = (if a < 0 then NaN else Fin (sqrt a))"
| "fl_sqrt PInf = PInf"
| "fl_sqrt NInf = NaN"
| "fl_sqrt NaN = NaN"

text \<open>\<^verbatim>\<open>x ** n\<close> for an integer \<open>n \<ge> 0\<close>; anything to the power 0 is 1, NaN too.\<close>

fun fl_pow :: "fl \<Rightarrow> nat \<Rightarrow> fl" where
  "fl_pow x 0 = Fin 1"
| "fl_pow (Fin a) (Suc n) = Fin (a ^ Suc n)"
| "fl_pow PInf (Suc n) = PInf"
| "fl_pow NInf (Suc n) = (if even (Suc n) then PInf else NInf)"
| "fl_pow NaN (Suc n) = NaN"

section \<open>Errors and arrays\<close>

text \<open>
  The exceptions the function can raise: \<^verbatim>\<open>T / N\<close> on Python numbers with
  \<^verbatim>\<open>N == 0\<close>, \<^verbatim>\<open>option_values[0]\<close> on an empty array, and an elementwise
  operation on arrays whose shapes do not broadcast.
\<close>

datatype error = ZeroDivisionError | IndexError | ValueError

text \<open>
  An elementwise operation on two one-dimensional arrays: equal lengths pair up, an
  array of length one is stretched, any other pair of lengths is a ValueError.
\<close>

definition broadcast2 :: "(fl \<Rightarrow> fl \<Rightarrow> fl) \<Rightarrow> fl list \<Rightarrow> fl list \<Rightarrow> error + fl list" where
  "broadcast2 f xs ys =
     (if length xs = length ys then Inr (map2 f xs ys)
      else if length xs = 1 then Inr (map (f (hd xs)) ys)
      else if length ys = 1 then Inr (map (\<lambda>x. f x (hd ys)) xs)
      else Inl ValueError)"

section \<open>The pricer\<close>

text \<open>
  The payoff of the source, written there twice (at maturity and as the exercise value
  of each backward step): \<^verbatim>\<open>np.maximum(asset_prices - K, 0)\<close> when
  \<^verbatim>\<open>option_type == 'call'\<close>, \<^verbatim>\<open>np.maximum(K - asset_prices, 0)\<close> in the
  \<^verbatim>\<open>else\<close> branch.
\<close>

definition payoff :: "string \<Rightarrow> real \<Rightarrow> fl list \<Rightarrow> fl list" where
  "payoff option_type K asset_prices =
     (if option_type = ''call''
      then map (\<lambda>x. fl_max (fl_sub x (Fin K)) (Fin 0)) asset_prices
      else map (\<lambda>x. fl_max (fl_sub (Fin K) x) (Fin 0)) asset_prices)"

text \<open>The two arrays the loop rebinds at every step.\<close>

record lattice =
  asset_prices :: "fl list"
  option_values :: "fl list"

text \<open>
  The derived quantities, for \<open>N \<noteq> 0\<close>:
  \<^verbatim>\<open>dt = T / N\<close>, \<^verbatim>\<open>u = np.exp(sigma * np.sqrt(dt))\<close>, \<^verbatim>\<open>d = 1 / u\<close>,
  \<^verbatim>\<open>p = (np.exp((r - q) * dt) - d) / (u - d)\<close>, \<^verbatim>\<open>discount = np.exp(-r * dt)\<close>.
\<close>

definition time_step :: "real \<Rightarrow> int \<Rightarrow> real" where
  "time_step T N = T / real_of_int N"

definition up_factor :: "real \<Rightarrow> real \<Rightarrow> int \<Rightarrow> fl" where
  "up_factor T sigma N = fl_exp (fl_mul (Fin sigma) (fl_sqrt (Fin (time_step T N))))"

definition down_factor :: "real \<Rightarrow> real \<Rightarrow> int \<Rightarrow> fl" where
  "down_factor T sigma N = fl_div (Fin 1) (up_factor T sigma N)"

definition risk_neutral_p :: "real \<Rightarrow> real \<Rightarrow> real \<Rightarrow> real \<Rightarrow> int \<Rightarrow> fl" where
  "risk_neutral_p T r sigma q N =
     fl_div (fl_sub (fl_exp (Fin ((r - q) * time_step T N))) (down_factor T sigma N))
            (fl_sub (up_factor T sigma N) (down_factor T sigma N))"

definition discount_factor :: "real \<Rightarrow> real \<Rightarrow> int \<Rightarrow> fl" where
  "discount_factor T r N = fl_exp (Fin (- r * time_step T N))"

text \<open>
  \<^verbatim>\<open>np.array([S * (u**j) * (d**(N-j)) for j in range(N+1)])\<close>, empty when \<open>N < 0\<close>, and
  the payoff at maturity.
\<close>

definition initial_lattice :: "real \<Rightarrow> real \<Rightarrow> real \<Rightarrow> real \<Rightarrow> int \<Rightarrow> string \<Rightarrow> lattice" where
  "initial_lattice S K T sigma N option_type =
     (let u = up_factor T sigma N;
          d = down_factor T sigma N;
          prices = map (\<lambda>j. fl_mul (fl_mul (Fin S) (fl_pow u j)) (fl_pow d (nat N - j)))
                       [0..<nat (N + 1)]
      in \<lparr>asset_prices = prices, option_values = payoff option_type K prices\<rparr>)"

text \<open>
  One pass of the loop body at index \<open>i\<close>:
  \<^verbatim>\<open>asset_prices = asset_prices[:i+1] / u\<close>,
  \<^verbatim>\<open>option_values = (p * option_values[1:] + (1-p) * option_values[:-1]) * discount\<close>,
  then the elementwise maximum with the exercise value.
\<close>

definition backward_step ::
  "fl \<Rightarrow> fl \<Rightarrow> fl \<Rightarrow> real \<Rightarrow> string \<Rightarrow> nat \<Rightarrow> lattice \<Rightarrow> error + lattice" where
  "backward_step u p discount K option_type i st =
     (let prices = map (\<lambda>x. fl_div x u) (take (i + 1) (asset_prices st)) in
      case broadcast2 fl_add (map (fl_mul p) (tl (option_values st)))
                             (map (fl_mul (fl_sub (Fin 1) p)) (butlast (option_values st))) of
        Inl e \<Rightarrow> Inl e
      | Inr expectation \<Rightarrow>
          (case broadcast2 fl_max (map (\<lambda>x. fl_mul x discount) expectation)
                                  (payoff option_type K prices) of
             Inl e \<Rightarrow> Inl e
           | Inr values \<Rightarrow> Inr \<lparr>asset_prices = prices, option_values = values\<rparr>))"

text \<open>The loop over a list of indices, stopping at the first exception.\<close>

fun backward_induction ::
  "fl \<Rightarrow> fl \<Rightarrow> fl \<Rightarrow> real \<Rightarrow> string \<Rightarrow> nat list \<Rightarrow> lattice \<Rightarrow> error + lattice" where
  "backward_induction u p discount K option_type [] st = Inr st"
| "backward_induction u p discount K option_type (i # is) st =
     (case backward_step u p discount K option_type i st of
        Inl e \<Rightarrow> Inl e
      | Inr st' \<Rightarrow> backward_induction u p discount K option_type is st')"

text \<open>\<^verbatim>\<open>range(N-1, -1, -1)\<close>: \<open>N-1, ..., 0\<close>, empty when \<open>N \<le> 0\<close>.\<close>

definition loop_indices :: "int \<Rightarrow> nat list" where
  "loop_indices N = rev [0..<nat N]"

text \<open>
  The lattice after the first \<open>k\<close> passes of the loop (all of them when \<open>k \<ge> N\<close>).
  \<^verbatim>\<open>T / N\<close> comes first and raises when \<open>N = 0\<close>: \<open>T\<close> and \<open>N\<close> are Python
  numbers, as the notebook passes them (\<^verbatim>\<open>T = 1\<close>, \<^verbatim>\<open>N = 50\<close>). Were one of them a
  numpy scalar, the division by zero would give an infinity with a warning; none
  of the claims settled below depends on which of the two happens.
\<close>

definition lattice_after ::
  "nat \<Rightarrow> real \<Rightarrow> real \<Rightarrow> real \<Rightarrow> real \<Rightarrow> real \<Rightarrow> real \<Rightarrow> int \<Rightarrow> string \<Rightarrow> error + lattice" where
  "lattice_after k S K T r sigma q N option_type =
     (if N = 0 then Inl ZeroDivisionError
      else backward_induction (up_factor T sigma N) (risk_neutral_p T r sigma q N)
             (discount_factor T r N) K option_type (take k (loop_indices N))
             (initial_lattice S K T sigma N option_type))"

text \<open>\<^verbatim>\<open>return option_values[0]\<close> after the whole loop.\<close>

definition american_option_binomial ::
  "real \<Rightarrow> real \<Rightarrow> real \<Rightarrow> real \<Rightarrow> real \<Rightarrow> real \<Rightarrow> int \<Rightarrow> string \<Rightarrow> error + fl" where
  "american_option_binomial S K T r sigma q N option_type =
     (case lattice_after (nat N) S K T r sigma q N option_type of
        Inl e \<Rightarrow> Inl e
      | Inr st \<Rightarrow> (case option_values st of [] \<Rightarrow> Inl IndexError | v # vs \<Rightarrow> Inr v))"

section \<open>The same lattice without the early-exercise comparison\<close>

text \<open>
  The pricer the specification compares with: the same backward induction with the
  maximum against the exercise value removed, so that each pass keeps the discounted
  expectation. Everything else is as in the source.
\<close>

definition backward_step_european :: "fl \<Rightarrow> fl \<Rightarrow> fl \<Rightarrow> nat \<Rightarrow> lattice \<Rightarrow> error + lattice" where
  "backward_step_european u p discount i st =
     (let prices = map (\<lambda>x. fl_div x u) (take (i + 1) (asset_prices st)) in
      case broadcast2 fl_add (map (fl_mul p) (tl (option_values st)))
                             (map (fl_mul (fl_sub (Fin 1) p)) (butlast (option_values st))) of
        Inl e \<Rightarrow> Inl e
      | Inr expectation \<Rightarrow>
          Inr \<lparr>asset_prices = prices,
               option_values = map (\<lambda>x. fl_mul x discount) expectation\<rparr>)"

fun backward_induction_european :: "fl \<Rightarrow> fl \<Rightarrow> fl \<Rightarrow> nat list \<Rightarrow> lattice \<Rightarrow> error + lattice" where
  "backward_induction_european u p discount [] st = Inr st"
| "backward_induction_european u p discount (i # is) st =
     (case backward_step_european u p discount i st of
        Inl e \<Rightarrow> Inl e
      | Inr st' \<Rightarrow> backward_induction_european u p discount is st')"

definition european_option_binomial ::
  "real \<Rightarrow> real \<Rightarrow> real \<Rightarrow> real \<Rightarrow> real \<Rightarrow> real \<Rightarrow> int \<Rightarrow> string \<Rightarrow> error + fl" where
  "european_option_binomial S K T r sigma q N option_type =
     (if N = 0 then Inl ZeroDivisionError
      else case backward_induction_european (up_factor T sigma N)
                  (risk_neutral_p T r sigma q N) (discount_factor T r N) (loop_indices N)
                  (initial_lattice S K T sigma N option_type) of
             Inl e \<Rightarrow> Inl e
           | Inr st \<Rightarrow> (case option_values st of [] \<Rightarrow> Inl IndexError | v # vs \<Rightarrow> Inr v))"

section \<open>The lattice in closed form\<close>

text \<open>
  What the loop computes when every quantity is finite, as functions of the number
  \<open>k\<close> of passes done and the node index \<open>j\<close>. The up factor, the probability and
  the discount factor are the real numbers \<open>u\<close>, \<open>p\<close> and \<open>disc\<close>.
\<close>

definition intrinsic :: "string \<Rightarrow> real \<Rightarrow> real \<Rightarrow> real" where
  "intrinsic option_type K x = (if option_type = ''call'' then max (x - K) 0 else max (K - x) 0)"

text \<open>The terminal price of node \<open>j\<close>, divided by \<open>u\<close> once per pass.\<close>

definition node_price :: "real \<Rightarrow> real \<Rightarrow> nat \<Rightarrow> nat \<Rightarrow> nat \<Rightarrow> real" where
  "node_price S u n k j = S * u ^ j * (1 / u) ^ (n - j) / u ^ k"

fun node_value ::
  "real \<Rightarrow> real \<Rightarrow> real \<Rightarrow> real \<Rightarrow> real \<Rightarrow> string \<Rightarrow> nat \<Rightarrow> nat \<Rightarrow> nat \<Rightarrow> real" where
  "node_value S K u p disc option_type n 0 j = intrinsic option_type K (node_price S u n 0 j)"
| "node_value S K u p disc option_type n (Suc k) j =
     max ((p * node_value S K u p disc option_type n k (Suc j)
           + (1 - p) * node_value S K u p disc option_type n k j) * disc)
         (intrinsic option_type K (node_price S u n (Suc k) j))"

fun node_value_european ::
  "real \<Rightarrow> real \<Rightarrow> real \<Rightarrow> real \<Rightarrow> real \<Rightarrow> string \<Rightarrow> nat \<Rightarrow> nat \<Rightarrow> nat \<Rightarrow> real" where
  "node_value_european S K u p disc option_type n 0 j =
     intrinsic option_type K (node_price S u n 0 j)"
| "node_value_european S K u p disc option_type n (Suc k) j =
     (p * node_value_european S K u p disc option_type n k (Suc j)
      + (1 - p) * node_value_european S K u p disc option_type n k j) * disc"

text \<open>The real numbers behind the derived quantities when they are finite.\<close>

definition up_real :: "real \<Rightarrow> real \<Rightarrow> int \<Rightarrow> real" where
  "up_real T sigma N = exp (sigma * sqrt (time_step T N))"

definition p_real :: "real \<Rightarrow> real \<Rightarrow> real \<Rightarrow> real \<Rightarrow> int \<Rightarrow> real" where
  "p_real T r sigma q N =
     (exp ((r - q) * time_step T N) - 1 / up_real T sigma N)
     / (up_real T sigma N - 1 / up_real T sigma N)"

definition disc_real :: "real \<Rightarrow> real \<Rightarrow> int \<Rightarrow> real" where
  "disc_real T r N = exp (- r * time_step T N)"

text \<open>
  A value that is not negative: a real \<open>\<ge> 0\<close> or \<open>+\<infinity>\<close>; NaN, which is no
  number, counts as not negative too.
\<close>

fun not_negative :: "fl \<Rightarrow> bool" where
  "not_negative (Fin a) = (0 \<le> a)"
| "not_negative PInf = True"
| "not_negative NInf = False"
| "not_negative NaN = True"

text \<open>An outcome that is an exception, or a value that is not negative.\<close>

fun never_negative :: "error + fl \<Rightarrow> bool" where
  "never_negative (Inl e) = True"
| "never_negative (Inr x) = not_negative x"

section \<open>The branch taken by the option type\<close>

lemma payoff_not_call:
  assumes "option_type \<noteq> ''call''"
  shows "payoff option_type K xs = payoff ''put'' K xs"
  using assms by (simp add: payoff_def)

lemma backward_step_not_call:
  assumes "option_type \<noteq> ''call''"
  shows "backward_step u p discount K option_type i st = backward_step u p discount K ''put'' i st"
  unfolding backward_step_def Let_def payoff_not_call [OF assms] ..

lemma backward_induction_not_call:
  assumes "option_type \<noteq> ''call''"
  shows "backward_induction u p discount K option_type is st =
         backward_induction u p discount K ''put'' is st"
proof (induction "is" arbitrary: st)
  case Nil
  show ?case by simp
next
  case (Cons i "is")
  show ?case
    unfolding backward_induction.simps backward_step_not_call [OF assms] Cons.IH ..
qed

lemma lattice_after_not_call:
  assumes "option_type \<noteq> ''call''"
  shows "lattice_after k S K T r sigma q N option_type = lattice_after k S K T r sigma q N ''put''"
  unfolding lattice_after_def initial_lattice_def Let_def
    payoff_not_call [OF assms] backward_induction_not_call [OF assms] ..

lemma price_not_call:
  assumes "option_type \<noteq> ''call''"
  shows "american_option_binomial S K T r sigma q N option_type =
         american_option_binomial S K T r sigma q N ''put''"
  unfolding american_option_binomial_def lattice_after_not_call [OF assms] ..

text \<open>
  Claim C9. The payoff is chosen by \<^verbatim>\<open>if option_type == 'call' ... else ...\<close>, so
  every \<open>option_type\<close> other than the string \<^verbatim>\<open>'call'\<close>, an invalid one too, is
  priced exactly as \<^verbatim>\<open>'put'\<close> is, all other arguments being the same.
\<close>

theorem non_call_priced_as_put:
  assumes "option_type \<noteq> ''call''"
  shows "american_option_binomial S K T r sigma q N option_type =
         american_option_binomial S K T r sigma q N ''put''"
  using assms by (rule price_not_call)

theorem non_call_priced_as_put_witness:
  "''straddle'' \<noteq> ''call'' \<and>
   american_option_binomial 100 100 1 (1/20) (1/5) 0 50 ''straddle'' =
   american_option_binomial 100 100 1 (1/20) (1/5) 0 50 ''put''"
proof -
  have h: "''straddle'' \<noteq> ''call''" by simp
  show ?thesis
    using h non_call_priced_as_put [OF h, of 100 100 1 "1/20" "1/5" 0 50] by blast
qed

section \<open>Lists of indices and of nodes\<close>

lemma backward_induction_append:
  "backward_induction u p discount K ot (xs @ ys) st =
     (case backward_induction u p discount K ot xs st of
        Inl e \<Rightarrow> Inl e
      | Inr st' \<Rightarrow> backward_induction u p discount K ot ys st')"
  by (induction xs arbitrary: st) (simp_all split: sum.splits)

lemma broadcast2_same: "length xs = length ys \<Longrightarrow> broadcast2 f xs ys = Inr (map2 f xs ys)"
  by (simp add: broadcast2_def)

lemma map2_map_same: "map2 h (map f xs) (map g xs) = map (\<lambda>x. h (f x) (g x)) xs"
  by (induction xs) simp_all

lemma tl_map_upt: "tl (map f [0..<Suc n]) = map (\<lambda>j. f (Suc j)) [0..<n]"
proof -
  have "tl (map f [0..<Suc n]) = map f (tl [0..<Suc n])" by (simp add: map_tl)
  also have "tl [0..<Suc n] = map Suc [0..<n]" by (simp add: map_Suc_upt del: upt_Suc)
  finally show ?thesis by (simp add: comp_def)
qed

lemma butlast_map_upt: "butlast (map f [0..<Suc n]) = map f [0..<n]"
  by (simp add: map_butlast [symmetric])

lemma take_map_upt: "m \<le> n \<Longrightarrow> take m (map f [0..<n]) = map f [0..<m]"
  by (simp add: take_map min_def)

lemma loop_indices_take_Suc:
  assumes "int k < N"
  shows "take (Suc k) (loop_indices N) = take k (loop_indices N) @ [nat N - Suc k]"
proof -
  have k: "k < length (rev [0..<nat N])" using assms by simp
  have "rev [0..<nat N] ! k = nat N - Suc k" using k by (simp add: rev_nth)
  then show ?thesis using k by (simp add: loop_indices_def take_Suc_conv_app_nth)
qed

section \<open>The loop on finite values\<close>

lemma finite_quantities:
  assumes "0 \<le> T" "0 < N"
  shows "up_factor T sigma N = Fin (up_real T sigma N)"
    and "down_factor T sigma N = Fin (1 / up_real T sigma N)"
    and "discount_factor T r N = Fin (disc_real T r N)"
proof -
  have "0 \<le> time_step T N" using assms by (simp add: time_step_def)
  then show u: "up_factor T sigma N = Fin (up_real T sigma N)"
    by (simp add: up_factor_def up_real_def)
  show "down_factor T sigma N = Fin (1 / up_real T sigma N)"
    by (simp add: down_factor_def u up_real_def)
  show "discount_factor T r N = Fin (disc_real T r N)"
    by (simp add: discount_factor_def disc_real_def)
qed

lemma up_real_gt_1:
  assumes "0 < T" "0 < N" "0 < sigma"
  shows "1 < up_real T sigma N"
proof -
  have "0 < time_step T N" using assms by (simp add: time_step_def)
  then have "0 < sigma * sqrt (time_step T N)" using assms by simp
  then show ?thesis by (simp add: up_real_def)
qed

lemma finite_p:
  assumes "0 < T" "0 < N" "0 < sigma"
  shows "risk_neutral_p T r sigma q N = Fin (p_real T r sigma q N)"
proof -
  have u: "1 < up_real T sigma N" using assms by (rule up_real_gt_1)
  then have "1 / up_real T sigma N < 1" by simp
  then have "up_real T sigma N - 1 / up_real T sigma N \<noteq> 0" using u by linarith
  then show ?thesis
    using assms by (simp add: risk_neutral_p_def finite_quantities fl_sub_def p_real_def)
qed

lemma payoff_Fin:
  "payoff ot K (map (\<lambda>j. Fin (a j)) js) = map (\<lambda>j. Fin (intrinsic ot K (a j))) js"
  by (simp add: payoff_def intrinsic_def fl_sub_def)

lemma initial_lattice_Fin:
  assumes "0 \<le> T" "0 < N"
  shows "initial_lattice S K T sigma N ot =
     \<lparr>asset_prices = map (\<lambda>j. Fin (node_price S (up_real T sigma N) (nat N) 0 j)) [0..<Suc (nat N)],
      option_values = map (\<lambda>j. Fin (node_value S K (up_real T sigma N) p disc ot (nat N) 0 j)) [0..<Suc (nat N)]\<rparr>"
proof -
  have pw: "fl_pow (Fin a) n = Fin (a ^ n)" for a n by (cases n) simp_all
  have n: "nat (N + 1) = Suc (nat N)" using assms by simp
  have "map (\<lambda>j. fl_mul (fl_mul (Fin S) (fl_pow (up_factor T sigma N) j))
                 (fl_pow (down_factor T sigma N) (nat N - j))) [0..<nat (N + 1)]
      = map (\<lambda>j. Fin (node_price S (up_real T sigma N) (nat N) 0 j)) [0..<Suc (nat N)]"
    unfolding n by (simp add: finite_quantities [OF assms] pw node_price_def del: upt_Suc)
  then show ?thesis
    by (simp add: initial_lattice_def Let_def payoff_Fin del: upt_Suc)
qed

lemma backward_step_Fin:
  assumes "u \<noteq> 0"
  shows "backward_step (Fin u) (Fin p) (Fin disc) K ot i
      \<lparr>asset_prices = map (\<lambda>j. Fin (a j)) [0..<Suc (Suc i)],
       option_values = map (\<lambda>j. Fin (v j)) [0..<Suc (Suc i)]\<rparr>
    = Inr \<lparr>asset_prices = map (\<lambda>j. Fin (a j / u)) [0..<Suc i],
           option_values = map (\<lambda>j. Fin (max ((p * v (Suc j) + (1 - p) * v j) * disc)
                                             (intrinsic ot K (a j / u)))) [0..<Suc i]\<rparr>"
proof -
  have prices: "map (\<lambda>x. fl_div x (Fin u)) (take (i + 1) (map (\<lambda>j. Fin (a j)) [0..<Suc (Suc i)]))
      = map (\<lambda>j. Fin (a j / u)) [0..<Suc i]"
    using assms by (simp add: take_map_upt del: upt_Suc)
  have up: "map (fl_mul (Fin p)) (tl (map (\<lambda>j. Fin (v j)) [0..<Suc (Suc i)]))
      = map (\<lambda>j. Fin (p * v (Suc j))) [0..<Suc i]"
    by (simp add: tl_map_upt del: upt_Suc)
  have down: "map (fl_mul (fl_sub (Fin 1) (Fin p))) (butlast (map (\<lambda>j. Fin (v j)) [0..<Suc (Suc i)]))
      = map (\<lambda>j. Fin ((1 - p) * v j)) [0..<Suc i]"
    by (simp add: butlast_map_upt fl_sub_def del: upt_Suc)
  have expectation: "broadcast2 fl_add (map (\<lambda>j. Fin (p * v (Suc j))) [0..<Suc i])
        (map (\<lambda>j. Fin ((1 - p) * v j)) [0..<Suc i])
      = Inr (map (\<lambda>j. Fin (p * v (Suc j) + (1 - p) * v j)) [0..<Suc i])"
    by (simp add: broadcast2_same map2_map_same del: upt_Suc)
  have vals: "broadcast2 fl_max
        (map (\<lambda>x. fl_mul x (Fin disc)) (map (\<lambda>j. Fin (p * v (Suc j) + (1 - p) * v j)) [0..<Suc i]))
        (payoff ot K (map (\<lambda>j. Fin (a j / u)) [0..<Suc i]))
      = Inr (map (\<lambda>j. Fin (max ((p * v (Suc j) + (1 - p) * v j) * disc)
                                (intrinsic ot K (a j / u)))) [0..<Suc i])"
    unfolding payoff_Fin map_map comp_def
    by (simp add: broadcast2_same map2_map_same del: upt_Suc)
  show ?thesis
    unfolding backward_step_def Let_def lattice.simps prices up down expectation sum.case vals ..
qed

lemma node_price_Suc: "node_price S u n k j / u = node_price S u n (Suc k) j"
  by (simp add: node_price_def)

lemma backward_induction_Fin:
  assumes "u \<noteq> 0" "k \<le> n"
  shows "backward_induction (Fin u) (Fin p) (Fin disc) K ot (take k (rev [0..<n]))
      \<lparr>asset_prices = map (\<lambda>j. Fin (node_price S u n 0 j)) [0..<Suc n],
       option_values = map (\<lambda>j. Fin (node_value S K u p disc ot n 0 j)) [0..<Suc n]\<rparr>
    = Inr \<lparr>asset_prices = map (\<lambda>j. Fin (node_price S u n k j)) [0..<Suc (n - k)],
           option_values = map (\<lambda>j. Fin (node_value S K u p disc ot n k j)) [0..<Suc (n - k)]\<rparr>"
  using assms(2)
proof (induction k)
  case 0
  show ?case by simp
next
  case (Suc k)
  then have k: "k < n" by simp
  have idx: "take (Suc k) (rev [0..<n]) = take k (rev [0..<n]) @ [n - Suc k]"
    using k by (simp add: take_Suc_conv_app_nth rev_nth)
  have len: "Suc (n - k) = Suc (Suc (n - Suc k))" using k by simp
  have IH: "backward_induction (Fin u) (Fin p) (Fin disc) K ot (take k (rev [0..<n]))
      \<lparr>asset_prices = map (\<lambda>j. Fin (node_price S u n 0 j)) [0..<Suc n],
       option_values = map (\<lambda>j. Fin (node_value S K u p disc ot n 0 j)) [0..<Suc n]\<rparr>
    = Inr \<lparr>asset_prices = map (\<lambda>j. Fin (node_price S u n k j)) [0..<Suc (Suc (n - Suc k))],
           option_values = map (\<lambda>j. Fin (node_value S K u p disc ot n k j)) [0..<Suc (Suc (n - Suc k))]\<rparr>"
    using Suc.IH k unfolding len by simp
  show ?case
    unfolding idx backward_induction_append IH sum.case backward_induction.simps
      backward_step_Fin [OF assms(1)] node_price_Suc
    by (simp del: upt_Suc)
qed

lemma lattice_after_Fin:
  assumes "0 < T" "0 < N" "0 < sigma" "k \<le> nat N"
  shows "lattice_after k S K T r sigma q N ot =
     Inr \<lparr>asset_prices = map (\<lambda>j. Fin (node_price S (up_real T sigma N) (nat N) k j)) [0..<Suc (nat N - k)],
          option_values = map (\<lambda>j. Fin (node_value S K (up_real T sigma N) (p_real T r sigma q N)
                                       (disc_real T r N) ot (nat N) k j)) [0..<Suc (nat N - k)]\<rparr>"
proof -
  have T: "0 \<le> T" using assms by simp
  have u: "up_real T sigma N \<noteq> 0" by (simp add: up_real_def)
  have N: "N \<noteq> 0" using assms by simp
  show ?thesis
    unfolding lattice_after_def loop_indices_def finite_quantities [OF T assms(2)]
      finite_p [OF assms(1-3)]
      initial_lattice_Fin [OF T assms(2), where p = "p_real T r sigma q N" and disc = "disc_real T r N"]
    using N backward_induction_Fin [OF u assms(4)] by simp
qed

lemma american_option_binomial_Fin:
  assumes "0 < T" "0 < N" "0 < sigma"
  shows "american_option_binomial S K T r sigma q N ot =
     Inr (Fin (node_value S K (up_real T sigma N) (p_real T r sigma q N) (disc_real T r N)
                 ot (nat N) (nat N) 0))"
  unfolding american_option_binomial_def
  by (simp add: lattice_after_Fin [OF assms order_refl])

section \<open>The shape of the lattice\<close>

lemma length_payoff: "length (payoff ot K xs) = length xs"
  by (simp add: payoff_def)

lemma backward_step_lengths:
  assumes "length (asset_prices st) = i + 2" "length (option_values st) = i + 2"
  shows "\<exists>st'. backward_step u p discount K ot i st = Inr st'
           \<and> length (asset_prices st') = i + 1 \<and> length (option_values st') = i + 1"
proof -
  let ?prices = "map (\<lambda>x. fl_div x u) (take (i + 1) (asset_prices st))"
  let ?e = "map2 fl_add (map (fl_mul p) (tl (option_values st)))
              (map (fl_mul (fl_sub (Fin 1) p)) (butlast (option_values st)))"
  have e: "broadcast2 fl_add (map (fl_mul p) (tl (option_values st)))
              (map (fl_mul (fl_sub (Fin 1) p)) (butlast (option_values st))) = Inr ?e"
    by (simp add: broadcast2_same)
  have le: "length ?e = i + 1" using assms by simp
  have lp: "length ?prices = i + 1" using assms by simp
  have v: "broadcast2 fl_max (map (\<lambda>x. fl_mul x discount) ?e) (payoff ot K ?prices)
      = Inr (map2 fl_max (map (\<lambda>x. fl_mul x discount) ?e) (payoff ot K ?prices))"
    using le lp by (simp add: broadcast2_same length_payoff)
  have "backward_step u p discount K ot i st =
      Inr \<lparr>asset_prices = ?prices,
           option_values = map2 fl_max (map (\<lambda>x. fl_mul x discount) ?e) (payoff ot K ?prices)\<rparr>"
    unfolding backward_step_def Let_def e sum.case v ..
  moreover have "length (map2 fl_max (map (\<lambda>x. fl_mul x discount) ?e) (payoff ot K ?prices)) = i + 1"
    using le lp by (simp add: length_payoff)
  ultimately show ?thesis using lp by simp
qed

lemma length_initial_lattice:
  "length (asset_prices (initial_lattice S K T sigma N ot)) = nat (N + 1)"
  "length (option_values (initial_lattice S K T sigma N ot)) = nat (N + 1)"
  by (simp_all add: initial_lattice_def Let_def length_payoff)

lemma backward_induction_lengths:
  assumes "length (asset_prices st0) = n + 1" "length (option_values st0) = n + 1" "k \<le> n"
  shows "\<exists>st. backward_induction u p discount K ot (take k (rev [0..<n])) st0 = Inr st
           \<and> length (asset_prices st) = n + 1 - k \<and> length (option_values st) = n + 1 - k"
  using assms(3)
proof (induction k)
  case 0
  show ?case using assms by simp
next
  case (Suc k)
  then have k: "k < n" by simp
  then obtain st where st: "backward_induction u p discount K ot (take k (rev [0..<n])) st0 = Inr st"
      "length (asset_prices st) = (n - Suc k) + 2" "length (option_values st) = (n - Suc k) + 2"
    using Suc.IH by auto
  obtain st' where st': "backward_step u p discount K ot (n - Suc k) st = Inr st'"
      "length (asset_prices st') = n - Suc k + 1" "length (option_values st') = n - Suc k + 1"
    using backward_step_lengths [OF st(2,3)] by blast
  have idx: "take (Suc k) (rev [0..<n]) = take k (rev [0..<n]) @ [n - Suc k]"
    using k by (simp add: take_Suc_conv_app_nth rev_nth)
  have "backward_induction u p discount K ot (take (Suc k) (rev [0..<n])) st0 = Inr st'"
    unfolding idx backward_induction_append st(1) sum.case backward_induction.simps st'(1) ..
  then show ?case using st' k by simp
qed

lemma lattice_after_Suc:
  assumes "0 < N" "k < nat N" "lattice_after k S K T r sigma q N ot = Inr st"
  shows "lattice_after (Suc k) S K T r sigma q N ot =
         backward_step (up_factor T sigma N) (risk_neutral_p T r sigma q N)
           (discount_factor T r N) K ot (nat N - Suc k) st"
proof -
  have idx: "take (Suc k) (loop_indices N) = take k (loop_indices N) @ [nat N - Suc k]"
    using assms(2) by (intro loop_indices_take_Suc) simp
  have N: "N \<noteq> 0" using assms by simp
  have prev: "backward_induction (up_factor T sigma N) (risk_neutral_p T r sigma q N)
      (discount_factor T r N) K ot (take k (loop_indices N)) (initial_lattice S K T sigma N ot) = Inr st"
    using assms(3) N by (simp add: lattice_after_def)
  show ?thesis
    using N unfolding lattice_after_def idx backward_induction_append prev
    by (simp split: sum.splits)
qed

text \<open>
  Claim C8. When the loop runs (\<open>N \<ge> 1\<close>), whatever the other arguments are: after
  \<open>k\<close> passes no exception has been raised and the asset prices and the option values
  both have \<open>N + 1 - k\<close> elements, one fewer with each pass; the next lattice is the
  loop body applied to the current one, which it replaces; after the last pass the
  option values are a single element, and that element is what is returned.
\<close>

theorem lattice_shrinks_to_one_node:
  assumes "0 < N" "k \<le> nat N"
  shows "\<exists>st. lattice_after k S K T r sigma q N ot = Inr st
           \<and> length (asset_prices st) = nat N + 1 - k
           \<and> length (option_values st) = nat N + 1 - k
           \<and> (k < nat N \<longrightarrow>
                lattice_after (Suc k) S K T r sigma q N ot =
                backward_step (up_factor T sigma N) (risk_neutral_p T r sigma q N)
                  (discount_factor T r N) K ot (nat N - Suc k) st)
           \<and> (k = nat N \<longrightarrow>
                option_values st = [hd (option_values st)]
                \<and> american_option_binomial S K T r sigma q N ot = Inr (hd (option_values st)))"
proof -
  have n: "nat (N + 1) = nat N + 1" using assms by simp
  obtain st where st: "backward_induction (up_factor T sigma N) (risk_neutral_p T r sigma q N)
        (discount_factor T r N) K ot (take k (rev [0..<nat N])) (initial_lattice S K T sigma N ot) = Inr st"
      "length (asset_prices st) = nat N + 1 - k" "length (option_values st) = nat N + 1 - k"
    using backward_induction_lengths [OF _ _ assms(2), of "initial_lattice S K T sigma N ot"]
    unfolding length_initial_lattice n by blast
  have la: "lattice_after k S K T r sigma q N ot = Inr st"
    using assms st(1) by (simp add: lattice_after_def loop_indices_def)
  have final: "option_values st = [hd (option_values st)]
      \<and> american_option_binomial S K T r sigma q N ot = Inr (hd (option_values st))"
    if "k = nat N"
  proof -
    have "length (option_values st) = 1" using st(3) that by simp
    then obtain v where v: "option_values st = [v]" by (cases "option_values st") auto
    then show ?thesis
      using la that by (simp add: american_option_binomial_def)
  qed
  show ?thesis
    using la st(2,3) final lattice_after_Suc [OF assms(1) _ la] by blast
qed

theorem lattice_shrinks_to_one_node_witness:
  "(0::int) < 2 \<and> (1::nat) \<le> nat 2 \<and>
   (\<exists>st. lattice_after 1 100 100 1 (1/20) (1/5) 0 2 ''put'' = Inr st
      \<and> length (asset_prices st) = 2 \<and> length (option_values st) = 2
      \<and> lattice_after 2 100 100 1 (1/20) (1/5) 0 2 ''put'' =
          backward_step (up_factor 1 (1/5) 2) (risk_neutral_p 1 (1/20) (1/5) 0 2)
            (discount_factor 1 (1/20) 2) 100 ''put'' 0 st)"
proof -
  have h1: "(0::int) < 2" and h2: "(1::nat) \<le> nat 2" by simp_all
  have two: "Suc 1 = 2" by simp
  show ?thesis
    using lattice_shrinks_to_one_node [OF h1 h2, of 100 100 1 "1/20" "1/5" 0 "''put''"]
    unfolding two by auto
qed

section \<open>Values that are not numbers\<close>

lemma fl_mul_NaN_right: "fl_mul x NaN = NaN"
  by (cases x) simp_all

lemma fl_max_NaN_list: "map2 fl_max (replicate (length ys) NaN) ys = replicate (length ys) NaN"
  by (induction ys) simp_all

lemma map2_replicate: "map2 f (replicate n a) (replicate n b) = replicate n (f a b)"
  by (induction n) simp_all

lemma butlast_replicate_Suc: "butlast (replicate (Suc n) x) = replicate n x"
  by (induction n) simp_all

lemma nonfinite_weights:
  assumes "\<forall>a. p \<noteq> Fin a"
  shows "fl_add (fl_mul p (Fin v)) (fl_mul (fl_sub (Fin 1) p) (Fin v)) = NaN"
  using assms by (cases p) (simp_all add: fl_sub_def inf_of_sign_def)

lemma backward_step_all_NaN:
  assumes "length aps = i + 2"
    and "vs = replicate (i + 2) NaN \<or> (vs = replicate (i + 2) (Fin v) \<and> (\<forall>a. p \<noteq> Fin a))"
  shows "backward_step u p discount K ot i \<lparr>asset_prices = aps, option_values = vs\<rparr>
       = Inr \<lparr>asset_prices = map (\<lambda>x. fl_div x u) (take (i + 1) aps),
              option_values = replicate (i + 1) NaN\<rparr>"
proof -
  let ?prices = "map (\<lambda>x. fl_div x u) (take (i + 1) aps)"
  have lp: "length (payoff ot K ?prices) = i + 1" using assms(1) by (simp add: length_payoff)
  have e: "broadcast2 fl_add (map (fl_mul p) (tl vs)) (map (fl_mul (fl_sub (Fin 1) p)) (butlast vs))
      = Inr (replicate (i + 1) NaN)"
  proof -
    have "map2 fl_add (map (fl_mul p) (tl vs)) (map (fl_mul (fl_sub (Fin 1) p)) (butlast vs))
        = replicate (i + 1) NaN"
      using assms(2)
    proof
      assume "vs = replicate (i + 2) NaN"
      then show ?thesis
        by (simp add: butlast_replicate_Suc fl_mul_NaN_right map2_replicate del: replicate_Suc)
    next
      assume "vs = replicate (i + 2) (Fin v) \<and> (\<forall>a. p \<noteq> Fin a)"
      then show ?thesis
        by (simp add: butlast_replicate_Suc map2_replicate nonfinite_weights del: replicate_Suc)
    qed
    then show ?thesis by (simp add: broadcast2_same)
  qed
  have v: "broadcast2 fl_max (map (\<lambda>x. fl_mul x discount) (replicate (i + 1) NaN)) (payoff ot K ?prices)
      = Inr (replicate (i + 1) NaN)"
    using lp fl_max_NaN_list [of "payoff ot K ?prices"] by (simp add: broadcast2_same)
  show ?thesis
    unfolding backward_step_def Let_def lattice.simps e sum.case v ..
qed

lemma backward_induction_all_NaN:
  assumes "length aps = n + 1"
  shows "\<exists>aps'. backward_induction u p discount K ot (rev [0..<n])
            \<lparr>asset_prices = aps, option_values = replicate (n + 1) NaN\<rparr>
          = Inr \<lparr>asset_prices = aps', option_values = [NaN]\<rparr>"
  using assms
proof (induction n arbitrary: aps)
  case 0
  show ?case by simp
next
  case (Suc n)
  have len: "length aps = n + 2" using Suc.prems by simp
  have len': "length (map (\<lambda>x. fl_div x u) (take (n + 1) aps)) = n + 1" using len by simp
  have two: "Suc n + 1 = n + 2" by simp
  show ?case
    using Suc.IH [OF len']
    unfolding two
    by (simp add: backward_step_all_NaN [OF len, of _ _ p] del: replicate_Suc)
qed

lemma first_step_then_NaN:
  assumes "length aps = n + 2"
    and "vs = replicate (n + 2) NaN \<or> (vs = replicate (n + 2) (Fin v) \<and> (\<forall>a. p \<noteq> Fin a))"
  shows "\<exists>aps'. backward_induction u p discount K ot (rev [0..<Suc n])
            \<lparr>asset_prices = aps, option_values = vs\<rparr>
          = Inr \<lparr>asset_prices = aps', option_values = [NaN]\<rparr>"
proof -
  have len': "length (map (\<lambda>x. fl_div x u) (take (n + 1) aps)) = n + 1" using assms(1) by simp
  show ?thesis
    using backward_induction_all_NaN [OF len', of u p discount K ot]
    by (simp add: backward_step_all_NaN [OF assms] del: replicate_Suc)
qed

lemma price_NaN_from_lattice:
  assumes "0 < N"
    and "initial_lattice S K T sigma N ot = \<lparr>asset_prices = aps, option_values = vs\<rparr>"
    and "length aps = nat N + 1"
    and "vs = replicate (nat N + 1) NaN
         \<or> (vs = replicate (nat N + 1) (Fin v) \<and> (\<forall>a. risk_neutral_p T r sigma q N \<noteq> Fin a))"
  shows "american_option_binomial S K T r sigma q N ot = Inr NaN"
proof -
  obtain n where n: "nat N = Suc n" using assms(1) by (cases "nat N") auto
  have len: "length aps = n + 2" using assms(3) n by simp
  have vs: "vs = replicate (n + 2) NaN
       \<or> (vs = replicate (n + 2) (Fin v) \<and> (\<forall>a. risk_neutral_p T r sigma q N \<noteq> Fin a))"
    using assms(4) n by simp
  obtain aps' where "backward_induction (up_factor T sigma N) (risk_neutral_p T r sigma q N)
      (discount_factor T r N) K ot (rev [0..<Suc n]) \<lparr>asset_prices = aps, option_values = vs\<rparr>
      = Inr \<lparr>asset_prices = aps', option_values = [NaN]\<rparr>"
    using first_step_then_NaN [OF len vs] by blast
  then show ?thesis
    using assms(1) n
    by (simp add: american_option_binomial_def lattice_after_def loop_indices_def assms(2))
qed

lemma degenerate_up_factor_NaN:
  assumes "0 \<le> T" "0 < N" "sigma = 0 \<or> T = 0"
  shows "american_option_binomial S K T r sigma q N ot = Inr NaN"
proof -
  have u: "up_real T sigma N = 1" using assms(3) by (auto simp: up_real_def time_step_def)
  have p: "\<forall>a. risk_neutral_p T r sigma q N \<noteq> Fin a"
    by (simp add: risk_neutral_p_def finite_quantities [OF assms(1,2)] u fl_sub_def inf_of_sign_def)
  have init: "initial_lattice S K T sigma N ot =
      \<lparr>asset_prices = map (\<lambda>j. Fin S) [0..<Suc (nat N)],
       option_values = replicate (nat N + 1) (Fin (intrinsic ot K S))\<rparr>"
    unfolding initial_lattice_Fin [OF assms(1,2), where p = 0 and disc = 0] u
    by (simp add: node_price_def map_replicate_const del: upt_Suc replicate_Suc)
  show ?thesis
    by (rule price_NaN_from_lattice [OF assms(2) init, where v = "intrinsic ot K S"])
      (use p in simp_all)
qed

lemma negative_maturity_NaN:
  assumes "T < 0" "0 < N"
  shows "american_option_binomial S K T r sigma q N ot = Inr NaN"
proof -
  have dt: "time_step T N < 0" using assms by (simp add: time_step_def divide_neg_pos)
  have u: "up_factor T sigma N = NaN" using dt by (simp add: up_factor_def)
  have d: "down_factor T sigma N = NaN" by (simp add: down_factor_def u)
  obtain n where n: "nat N = Suc n" using assms(2) by (cases "nat N") auto
  have N1: "nat (N + 1) = Suc (Suc n)" using n assms(2) by simp
  have node: "fl_mul (fl_mul (Fin S) (fl_pow NaN j)) (fl_pow NaN (Suc n - j)) = NaN"
    if "j \<le> Suc n" for j
  proof (cases j)
    case 0
    then show ?thesis by simp
  next
    case (Suc j')
    then show ?thesis by simp
  qed
  have prices: "map (\<lambda>j. fl_mul (fl_mul (Fin S) (fl_pow NaN j)) (fl_pow NaN (Suc n - j))) [0..<Suc (Suc n)]
      = replicate (Suc (Suc n)) NaN"
  proof -
    have "map (\<lambda>j. fl_mul (fl_mul (Fin S) (fl_pow NaN j)) (fl_pow NaN (Suc n - j))) [0..<Suc (Suc n)]
        = map (\<lambda>j. NaN) [0..<Suc (Suc n)]"
      by (rule map_cong [OF refl], rule node) auto
    then show ?thesis by (simp add: map_replicate_const del: upt_Suc replicate_Suc)
  qed
  have pay: "payoff ot K (replicate m NaN) = replicate m NaN" for m
    by (simp add: payoff_def fl_sub_def)
  have init: "initial_lattice S K T sigma N ot =
      \<lparr>asset_prices = replicate (nat N + 1) NaN, option_values = replicate (nat N + 1) NaN\<rparr>"
    unfolding initial_lattice_def Let_def u d N1 n prices pay by simp
  show ?thesis
    by (rule price_NaN_from_lattice [OF assms(2) init]) simp_all
qed

section \<open>Exceptions, and values that are never negative\<close>

lemma price_of_no_steps:
  assumes "N < 0"
  shows "american_option_binomial S K T r sigma q N ot = Inl IndexError"
proof -
  have "nat (N + 1) = 0" "nat N = 0" "N \<noteq> 0" using assms by simp_all
  then show ?thesis
    by (simp add: american_option_binomial_def lattice_after_def initial_lattice_def Let_def
        payoff_def)
qed

lemma price_of_zero_steps: "american_option_binomial S K T r sigma q 0 ot = Inl ZeroDivisionError"
  by (simp add: american_option_binomial_def lattice_after_def)

lemma not_negative_floor: "not_negative (fl_max z (Fin 0))"
  by (cases z) simp_all

lemma not_negative_fl_max: "not_negative e \<Longrightarrow> not_negative (fl_max c e)"
  by (cases c; cases e) simp_all

lemma not_negative_payoff: "x \<in> set (payoff ot K xs) \<Longrightarrow> not_negative x"
  by (auto simp: payoff_def not_negative_floor split: if_splits)

lemma broadcast2_fl_max_not_negative:
  assumes "broadcast2 fl_max xs ys = Inr zs" "\<forall>y\<in>set ys. not_negative y" "z \<in> set zs"
  shows "not_negative z"
proof (cases "length xs = length ys")
  case True
  then have "zs = map2 fl_max xs ys" using assms(1) by (simp add: broadcast2_def)
  then obtain x y where "z = fl_max x y" "(x, y) \<in> set (zip xs ys)" using assms(3) by auto
  then show ?thesis using assms(2) by (auto intro: not_negative_fl_max dest: set_zip_rightD)
next
  case False
  show ?thesis
  proof (cases "length xs = 1")
    case True
    then have "zs = map (fl_max (hd xs)) ys" using assms(1) False by (simp add: broadcast2_def)
    then show ?thesis using assms(2,3) by (auto intro: not_negative_fl_max)
  next
    case one: False
    show ?thesis
    proof (cases "length ys = 1")
      case True
      then have zs: "zs = map (\<lambda>x. fl_max x (hd ys)) xs"
        using assms(1) False one by (simp add: broadcast2_def)
      have "ys \<noteq> []" using True by auto
      then have "not_negative (hd ys)" using assms(2) by simp
      then show ?thesis using zs assms(3) by (auto intro: not_negative_fl_max)
    next
      case False
      then show ?thesis
        using assms(1) one \<open>length xs \<noteq> length ys\<close> by (simp add: broadcast2_def)
    qed
  qed
qed

lemma backward_step_not_negative:
  assumes "backward_step u p discount K ot i st = Inr st'" "x \<in> set (option_values st')"
  shows "not_negative x"
proof -
  let ?prices = "map (\<lambda>x. fl_div x u) (take (i + 1) (asset_prices st))"
  obtain e where e: "broadcast2 fl_add (map (fl_mul p) (tl (option_values st)))
        (map (fl_mul (fl_sub (Fin 1) p)) (butlast (option_values st))) = Inr e"
    using assms(1) by (auto simp: backward_step_def Let_def split: sum.splits)
  obtain vs where vs: "broadcast2 fl_max (map (\<lambda>x. fl_mul x discount) e) (payoff ot K ?prices) = Inr vs"
    using assms(1) e by (auto simp: backward_step_def Let_def split: sum.splits)
  have "option_values st' = vs"
    using assms(1) e vs by (auto simp: backward_step_def Let_def)
  then have "x \<in> set vs" using assms(2) by simp
  then show ?thesis
    using broadcast2_fl_max_not_negative [OF vs] not_negative_payoff by blast
qed

lemma backward_induction_not_negative:
  assumes "is \<noteq> []" "backward_induction u p discount K ot is st = Inr st'"
    and "x \<in> set (option_values st')"
  shows "not_negative x"
  using assms
proof (induction "is" arbitrary: st)
  case Nil
  then show ?case by simp
next
  case (Cons i "is")
  then obtain st1 where st1: "backward_step u p discount K ot i st = Inr st1"
      "backward_induction u p discount K ot is st1 = Inr st'"
    by (auto split: sum.splits)
  show ?case
  proof (cases "is = []")
    case True
    then have "st' = st1" using st1(2) by simp
    then show ?thesis using backward_step_not_negative [OF st1(1)] Cons.prems(3) by simp
  next
    case False
    show ?thesis by (rule Cons.IH [OF False st1(2) Cons.prems(3)])
  qed
qed

lemma price_never_below_zero: "never_negative (american_option_binomial S K T r sigma q N ot)"
proof (cases "american_option_binomial S K T r sigma q N ot")
  case (Inl e)
  then show ?thesis by simp
next
  case (Inr x)
  then obtain st vs where st: "lattice_after (nat N) S K T r sigma q N ot = Inr st"
      "option_values st = x # vs"
    by (auto simp: american_option_binomial_def split: sum.splits list.splits)
  have N: "0 < N"
  proof (rule ccontr)
    assume "\<not> 0 < N"
    then have "N = 0 \<or> N < 0" by linarith
    then show False
      using Inr price_of_zero_steps [of S K T r sigma q ot] price_of_no_steps [of N S K T r sigma q ot]
      by auto
  qed
  then have idx: "loop_indices N \<noteq> []" "take (nat N) (loop_indices N) = loop_indices N"
    by (simp_all add: loop_indices_def)
  have "backward_induction (up_factor T sigma N) (risk_neutral_p T r sigma q N)
      (discount_factor T r N) K ot (loop_indices N) (initial_lattice S K T sigma N ot) = Inr st"
    using st(1) N idx(2) by (simp add: lattice_after_def)
  moreover have "x \<in> set (option_values st)" using st(2) by simp
  ultimately have "not_negative x"
    using idx(1) by (intro backward_induction_not_negative [where x = x and st' = st])
  then show ?thesis using Inr by simp
qed

lemma price_returned_of_steps:
  assumes "0 < N"
  shows "\<exists>x. american_option_binomial S K T r sigma q N ot = Inr x \<and> not_negative x"
proof -
  have n: "nat (N + 1) = nat N + 1" using assms by simp
  obtain st where st: "backward_induction (up_factor T sigma N) (risk_neutral_p T r sigma q N)
        (discount_factor T r N) K ot (take (nat N) (rev [0..<nat N])) (initial_lattice S K T sigma N ot) = Inr st"
      "length (option_values st) = nat N + 1 - nat N"
    using backward_induction_lengths [OF _ _ order_refl, of "initial_lattice S K T sigma N ot" "nat N"]
    unfolding length_initial_lattice n by blast
  then obtain x where x: "option_values st = [x]"
    by (cases "option_values st") auto
  have "american_option_binomial S K T r sigma q N ot = Inr x"
    using assms st(1) x
    by (simp add: american_option_binomial_def lattice_after_def loop_indices_def)
  then show ?thesis
    using price_never_below_zero [of S K T r sigma q N ot] by auto
qed

text \<open>
  Claim C4, amended. Whatever the arguments are, the outcome is an exception or a value
  that is not negative; with \<open>steps \<ge> 1\<close> it is a value. That value need not be a finite
  number: NaN is returned without any error, and no error kind of the function's own
  exists.
\<close>

theorem price_never_negative:
  "never_negative (american_option_binomial S K T r sigma q N ot)
   \<and> (0 < N \<longrightarrow> (\<exists>x. american_option_binomial S K T r sigma q N ot = Inr x))"
  using price_never_below_zero [of S K T r sigma q N ot]
    price_returned_of_steps [of N S K T r sigma q ot] by blast

theorem price_never_negative_witness:
  "(0::int) < 50
   \<and> never_negative (american_option_binomial 100 100 1 (1/20) (1/5) 0 50 ''put'')
   \<and> (\<exists>x. american_option_binomial 100 100 1 (1/20) (1/5) 0 50 ''put'' = Inr x)"
proof -
  have h: "(0::int) < 50" by simp
  show ?thesis
    using h price_never_negative [of 100 100 1 "1/20" "1/5" 0 50 "''put''"] by blast
qed

text \<open>
  Claim C4 as stated fails: with \<open>volatility = 0\<close> and \<open>rate = dividend_yield\<close> the
  probability is \<open>0 / 0\<close>, and NaN comes back as an ordinary return value.
\<close>

theorem nan_returned_silently:
  "american_option_binomial 100 90 1 0 0 0 2 ''put'' = Inr NaN"
  by (rule degenerate_up_factor_NaN) simp_all

text \<open>
  Claim C2, amended. With \<open>volatility = 0\<close> and the other preconditions met, no
  division error is raised, and the case \<open>u - d = 0\<close> is not treated apart: the
  division gives a probability that is infinite or NaN, and the value returned is NaN,
  for a call and for a put.
\<close>

theorem zero_volatility_returns_NaN:
  assumes "0 < S" "0 < K" "0 < T" "0 < N"
  shows "(\<forall>a. risk_neutral_p T r 0 q N \<noteq> Fin a)
         \<and> american_option_binomial S K T r 0 q N ot = Inr NaN"
proof -
  have T: "0 \<le> T" using assms by simp
  have "\<forall>a. risk_neutral_p T r 0 q N \<noteq> Fin a"
    by (simp add: risk_neutral_p_def finite_quantities [OF T assms(4)] up_real_def fl_sub_def
        inf_of_sign_def)
  moreover have "american_option_binomial S K T r 0 q N ot = Inr NaN"
    using T assms(4) by (rule degenerate_up_factor_NaN) simp
  ultimately show ?thesis by blast
qed

theorem zero_volatility_returns_NaN_witness:
  "(0::real) < 100 \<and> (0::real) < 1 \<and> (0::int) < 50 \<and>
   (\<forall>a. risk_neutral_p 1 (1/20) 0 0 50 \<noteq> Fin a) \<and>
   american_option_binomial 100 100 1 (1/20) 0 0 50 ''call'' = Inr NaN"
proof -
  have h: "(0::real) < 100" "(0::real) < 1" "(0::int) < 50" by simp_all
  show ?thesis
    using h zero_volatility_returns_NaN [OF h(1) h(1) h(2) h(3), of "1/20" 0 "''call''"] by blast
qed

text \<open>
  Claim C2 as stated fails at its own example, with one step: neither the call nor the
  put is priced to a number.
\<close>

theorem zero_volatility_example_is_NaN:
  "american_option_binomial 100 100 1 (1/20) 0 0 1 ''call'' = Inr NaN \<and>
   american_option_binomial 100 100 1 (1/20) 0 0 1 ''put'' = Inr NaN"
proof
  show "american_option_binomial 100 100 1 (1/20) 0 0 1 ''call'' = Inr NaN"
    by (rule degenerate_up_factor_NaN) simp_all
  show "american_option_binomial 100 100 1 (1/20) 0 0 1 ''put'' = Inr NaN"
    by (rule degenerate_up_factor_NaN) simp_all
qed

text \<open>
  Claim C5, amended. No parameter is validated and there is no InvalidParameter error.
  With \<open>steps < 0\<close> the lattice is empty and \<open>option_values[0]\<close> raises IndexError. With
  \<open>steps \<ge> 1\<close> nothing is raised, whatever \<open>spot\<close>, \<open>strike\<close>, \<open>maturity\<close> and the other
  arguments are: a value is returned, NaN or not negative, and it is NaN when
  \<open>maturity \<le> 0\<close>.
\<close>

theorem no_parameter_is_validated:
  "(N < 0 \<longrightarrow> american_option_binomial S K T r sigma q N ot = Inl IndexError)
   \<and> (0 < N \<longrightarrow> (\<exists>x. american_option_binomial S K T r sigma q N ot = Inr x \<and> not_negative x))
   \<and> (0 < N \<and> T \<le> 0 \<longrightarrow> american_option_binomial S K T r sigma q N ot = Inr NaN)"
proof (intro conjI impI)
  assume "N < 0"
  then show "american_option_binomial S K T r sigma q N ot = Inl IndexError"
    by (rule price_of_no_steps)
next
  assume "0 < N"
  then show "\<exists>x. american_option_binomial S K T r sigma q N ot = Inr x \<and> not_negative x"
    by (rule price_returned_of_steps)
next
  assume a: "0 < N \<and> T \<le> 0"
  show "american_option_binomial S K T r sigma q N ot = Inr NaN"
  proof (cases "T = 0")
    case True
    then show ?thesis using a by (intro degenerate_up_factor_NaN) simp_all
  next
    case False
    then show ?thesis using a by (intro negative_maturity_NaN) simp_all
  qed
qed

theorem no_parameter_is_validated_witness:
  "(- 3::int) < 0 \<and> (0::int) < 50 \<and> (- 1::real) \<le> 0
   \<and> american_option_binomial 100 100 1 (1/20) (1/5) 0 (- 3) ''put'' = Inl IndexError
   \<and> (\<exists>x. american_option_binomial (- 100) (- 5) 1 (1/20) (1/5) 0 50 ''put'' = Inr x \<and> not_negative x)
   \<and> american_option_binomial 100 100 (- 1) (1/20) (1/5) 0 50 ''put'' = Inr NaN"
  using no_parameter_is_validated [of "- 3" 100 100 1 "1/20" "1/5" 0 "''put''"]
    no_parameter_is_validated [of 50 "- 100" "- 5" 1 "1/20" "1/5" 0 "''put''"]
    no_parameter_is_validated [of 50 100 100 "- 1" "1/20" "1/5" 0 "''put''"]
  by simp

section \<open>One and two steps, evaluated\<close>

lemma one_step_price:
  assumes "0 < T" "0 < sigma"
  shows "american_option_binomial S K T r sigma q 1 ot =
     Inr (Fin (max ((p_real T r sigma q 1 * intrinsic ot K (S * up_real T sigma 1)
                     + (1 - p_real T r sigma q 1) * intrinsic ot K (S / up_real T sigma 1))
                    * disc_real T r 1)
                   (intrinsic ot K (S / up_real T sigma 1 / up_real T sigma 1))))"
proof -
  have one: "nat 1 = Suc 0" by simp
  have N: "(0::int) < 1" by simp
  show ?thesis
    unfolding american_option_binomial_Fin [OF assms(1) N assms(2)] one
    by (simp add: node_price_def)
qed

lemma unit_quantities:
  "up_real 1 sigma 1 = exp sigma"
  "p_real 1 r sigma q 1 = (exp (r - q) - 1 / exp sigma) / (exp sigma - 1 / exp sigma)"
  "disc_real 1 r 1 = exp (- r)"
  by (simp_all add: up_real_def p_real_def disc_real_def time_step_def)

lemma intrinsic_put_in: "ot \<noteq> ''call'' \<Longrightarrow> x \<le> K \<Longrightarrow> intrinsic ot K x = K - x"
  by (simp add: intrinsic_def)

lemma intrinsic_put_out: "ot \<noteq> ''call'' \<Longrightarrow> K \<le> x \<Longrightarrow> intrinsic ot K x = 0"
  by (simp add: intrinsic_def)

lemma intrinsic_call_in: "K \<le> x \<Longrightarrow> intrinsic ''call'' K x = x - K"
  by (simp add: intrinsic_def)

lemma intrinsic_call_out: "x \<le> K \<Longrightarrow> intrinsic ''call'' K x = 0"
  by (simp add: intrinsic_def)

lemma down_factor_bounds:
  assumes "1 < (u::real)"
  shows "0 < 1 / u" "1 / u < 1" "0 < 1 / u / u" "1 / u / u < 1 / u" "1 / u / u < 1"
proof -
  show a: "0 < 1 / u" and b: "1 / u < 1" using assms by simp_all
  show c: "0 < 1 / u / u" using assms by simp
  have "1 / u / u < 1 / u / 1" using a assms by (intro divide_strict_left_mono) simp_all
  then show d: "1 / u / u < 1 / u" by simp
  show "1 / u / u < 1" using b d by linarith
qed

lemma martingale_weights:
  assumes "1 < (u::real)"
  shows "(g - 1 / u) / (u - 1 / u) * u + (1 - (g - 1 / u) / (u - 1 / u)) * (1 / u) = g"
proof -
  have "1 / u < 1" using assms by simp
  then have nz: "u - 1 / u \<noteq> 0" using assms by linarith
  have "w * u + (1 - w) * d = d + w * (u - d)" for w d :: real
    by (simp add: algebra_simps)
  then have "(g - 1 / u) / (u - 1 / u) * u + (1 - (g - 1 / u) / (u - 1 / u)) * (1 / u)
      = 1 / u + (g - 1 / u) / (u - 1 / u) * (u - 1 / u)" .
  also have "\<dots> = g" using nz by simp
  finally show ?thesis .
qed

text \<open>
  Claim C5 as stated fails: a spot of \<open>-100\<close> raises nothing, and the put on it with
  strike 100 is priced at 200.
\<close>

theorem negative_spot_is_priced:
  "american_option_binomial (- 100) 100 1 0 (1/5) 0 1 ''put'' = Inr (Fin 200)"
proof -
  define u :: real where "u = exp (1/5)"
  define p where "p = (1 - 1 / u) / (u - 1 / u)"
  have u: "1 < u" by (simp add: u_def)
  have m: "p * u + (1 - p) * (1 / u) = 1"
    unfolding p_def using martingale_weights [OF u, of 1] by simp
  have uu: "1 / u / u < 1" "0 < 1 / u / u" using down_factor_bounds [OF u] by simp_all
  have i1: "intrinsic ''put'' 100 (- 100 * u) = 100 + 100 * u"
    using u by (simp add: intrinsic_def)
  have i0: "intrinsic ''put'' 100 (- 100 / u) = 100 + 100 * (1 / u)"
    using u by (simp add: intrinsic_def)
  have ix: "intrinsic ''put'' 100 (- 100 / u / u) = 100 + 100 * (1 / u / u)"
    using uu by (simp add: intrinsic_def)
  have "p * (100 + 100 * u) + (1 - p) * (100 + 100 * (1 / u))
      = 100 + 100 * (p * u + (1 - p) * (1 / u))"
    by (simp add: algebra_simps)
  then have c: "p * (100 + 100 * u) + (1 - p) * (100 + 100 * (1 / u)) = 200"
    unfolding m by simp
  have "100 + 100 * (1 / u / u) \<le> 200" using uu by linarith
  then have "max 200 (100 + 100 * (1 / u / u)) = 200" by (rule max_absorb1)
  then show ?thesis
    using c i1 i0 ix
    by (simp add: one_step_price unit_quantities u_def [symmetric] p_def [symmetric])
qed

section \<open>Option types that are neither call nor put\<close>

text \<open>
  Claim C3, amended. An \<open>option_type\<close> that is neither \<^verbatim>\<open>'call'\<close> nor \<^verbatim>\<open>'put'\<close>
  meets no check and no InvalidOptionKind error: it takes the \<^verbatim>\<open>else\<close> branch, so the
  put payoff formula is applied and the outcome is the one of \<^verbatim>\<open>'put'\<close> on the same
  arguments, exceptions included; with \<open>steps \<ge> 1\<close> that outcome is a returned value.
\<close>

theorem invalid_kind_takes_put_branch:
  assumes "ot \<noteq> ''call''" "ot \<noteq> ''put''"
  shows "payoff ot K xs = map (\<lambda>x. fl_max (fl_sub (Fin K) x) (Fin 0)) xs
         \<and> american_option_binomial S K T r sigma q N ot
             = american_option_binomial S K T r sigma q N ''put''
         \<and> (0 < N \<longrightarrow> (\<exists>x. american_option_binomial S K T r sigma q N ot = Inr x))"
proof -
  have "payoff ot K xs = map (\<lambda>x. fl_max (fl_sub (Fin K) x) (Fin 0)) xs"
    using assms(1) by (simp add: payoff_def)
  moreover have "american_option_binomial S K T r sigma q N ot
      = american_option_binomial S K T r sigma q N ''put''"
    using assms(1) by (rule price_not_call)
  moreover have "\<exists>x. american_option_binomial S K T r sigma q N ot = Inr x" if "0 < N"
    using price_returned_of_steps [OF that, of S K T r sigma q ot] by blast
  ultimately show ?thesis by blast
qed

theorem invalid_kind_takes_put_branch_witness:
  "''digital'' \<noteq> ''call'' \<and> ''digital'' \<noteq> ''put'' \<and> (0::int) < 50
   \<and> payoff ''digital'' 100 [Fin 90, Fin 110] = [Fin 10, Fin 0]
   \<and> american_option_binomial 100 100 1 (1/20) (1/5) 0 50 ''digital''
       = american_option_binomial 100 100 1 (1/20) (1/5) 0 50 ''put''
   \<and> (\<exists>x. american_option_binomial 100 100 1 (1/20) (1/5) 0 50 ''digital'' = Inr x)"
proof -
  have k: "''digital'' \<noteq> ''call''" "''digital'' \<noteq> ''put''" by simp_all
  have h: "(0::int) < 50" by simp
  have "payoff ''digital'' 100 [Fin 90, Fin 110] = [Fin 10, Fin 0]"
    using invalid_kind_takes_put_branch [OF k, of 100 "[Fin 90, Fin 110]" 100 1 "1/20" "1/5" 0 50]
    by (simp add: fl_sub_def)
  then show ?thesis
    using k h invalid_kind_takes_put_branch [OF k, of 100 "[Fin 90, Fin 110]" 100 1 "1/20" "1/5" 0 50]
    by blast
qed

text \<open>
  Claim C3 as stated fails: the option type \<^verbatim>\<open>'straddle'\<close> raises nothing and is
  priced with the put payoff, here to the exercise value \<open>100 - 100 / u\<^sup>2\<close> of the root.
\<close>

theorem invalid_kind_returns_a_price:
  "american_option_binomial 100 100 1 0 (1/5) 0 1 ''straddle''
   = Inr (Fin (100 - 100 / exp (1/5) / exp (1/5)))"
proof -
  define u :: real where "u = exp (1/5)"
  define p where "p = (1 - 1 / u) / (u - 1 / u)"
  define a where "a = 1 / u"
  define b where "b = 1 / u / u"
  have u: "1 < u" by (simp add: u_def)
  have ab: "0 < a" "a < 1" "0 < b" "b < a"
    unfolding a_def b_def by (rule down_factor_bounds [OF u])+
  have e: "100 / u = 100 * a" "100 / u / u = 100 * b" by (simp_all add: a_def b_def)
  have "0 < u - a" using u ab by linarith
  then have p0: "0 \<le> p" unfolding p_def a_def [symmetric] using ab by simp
  have k: "''straddle'' \<noteq> ''call''" by simp
  have i1: "intrinsic ''straddle'' 100 (100 * u) = 0"
    using u by (intro intrinsic_put_out [OF k]) linarith
  have i0: "intrinsic ''straddle'' 100 (100 / u) = 100 - 100 * a"
    unfolding e(1) using ab by (intro intrinsic_put_in [OF k]) linarith
  have ix: "intrinsic ''straddle'' 100 (100 / u / u) = 100 - 100 * b"
    unfolding e(2) using ab by (intro intrinsic_put_in [OF k]) linarith
  have "(1 - p) * (100 - 100 * a) \<le> 1 * (100 - 100 * a)"
    using p0 ab by (intro mult_right_mono) linarith+
  also have "\<dots> = 100 - 100 * a" by simp
  also have "\<dots> \<le> 100 - 100 * b" using ab by linarith
  finally have "(1 - p) * (100 - 100 * a) \<le> 100 - 100 * b" .
  then have m: "max ((1 - p) * (100 - 100 * a)) (100 - 100 * b) = 100 - 100 * b"
    by (rule max_absorb2)
  have "american_option_binomial 100 100 1 0 (1/5) 0 1 ''straddle''
      = Inr (Fin (max ((p * intrinsic ''straddle'' 100 (100 * u)
                        + (1 - p) * intrinsic ''straddle'' 100 (100 / u)) * 1)
                      (intrinsic ''straddle'' 100 (100 / u / u))))"
    by (simp add: one_step_price unit_quantities u_def p_def)
  also have "\<dots> = Inr (Fin (100 - 100 * b))"
    unfolding i1 i0 ix using m by simp
  also have "100 - 100 * b = 100 - 100 / exp (1/5) / exp (1/5)"
    unfolding e(2) [symmetric] u_def ..
  finally show ?thesis .
qed

section \<open>The probability and the exercise price of the root\<close>

lemma one_step_call:
  fixes S K r sigma q :: real
  defines "u \<equiv> exp sigma"
  defines "p \<equiv> (exp (r - q) - 1 / u) / (u - 1 / u)"
  assumes "0 < sigma" "0 \<le> S" "K \<le> S / u"
  shows "american_option_binomial S K 1 r sigma q 1 ''call'' =
           Inr (Fin (max ((p * (S * u - K) + (1 - p) * (S / u - K)) * exp (- r))
                         (intrinsic ''call'' K (S / u / u))))"
    and "p * (S * u - K) + (1 - p) * (S / u - K) = S * exp (r - q) - K"
proof -
  have u: "1 < u" using assms(3) by (simp add: u_def)
  have "S / u \<le> S * u"
  proof -
    have "S / u \<le> S / 1" using u assms(4) by (intro divide_left_mono) simp_all
    also have "\<dots> = S * 1" by simp
    also have "\<dots> \<le> S * u" using u assms(4) by (intro mult_left_mono) simp_all
    finally show ?thesis .
  qed
  then have i1: "intrinsic ''call'' K (S * u) = S * u - K"
    using assms(5) by (intro intrinsic_call_in) linarith
  have i0: "intrinsic ''call'' K (S / u) = S / u - K"
    using assms(5) by (rule intrinsic_call_in)
  show "american_option_binomial S K 1 r sigma q 1 ''call'' =
           Inr (Fin (max ((p * (S * u - K) + (1 - p) * (S / u - K)) * exp (- r))
                         (intrinsic ''call'' K (S / u / u))))"
    unfolding one_step_price [OF zero_less_one assms(3)] unit_quantities
      u_def [symmetric] p_def [symmetric] i1 i0 ..
  have "p * (S * u - K) + (1 - p) * (S / u - K) = S * (p * u + (1 - p) * (1 / u)) - K"
    by (simp add: algebra_simps)
  also have "p * u + (1 - p) * (1 / u) = exp (r - q)"
    unfolding p_def by (rule martingale_weights [OF u])
  finally show "p * (S * u - K) + (1 - p) * (S / u - K) = S * exp (r - q) - K" .
qed

lemma exp_fifth_bounds:
  "(4/5::real) \<le> 1 / exp (1/5)" "1 / exp (1/5) < (1::real)"
  "1 / exp (1/5) / exp (1/5) < 1 / exp (1/5::real)"
proof -
  have "1 + (- (1/5)) \<le> exp (- (1/5::real))" by (rule exp_ge_add_one_self)
  then show "(4/5::real) \<le> 1 / exp (1/5)" by (simp add: exp_minus inverse_eq_divide)
  have u: "1 < exp (1/5::real)" by simp
  show "1 / exp (1/5) < (1::real)" "1 / exp (1/5) / exp (1/5) < 1 / exp (1/5::real)"
    by (rule down_factor_bounds [OF u])+
qed

text \<open>
  Claim C10. The probability \<open>p\<close> is used as computed, never checked or clamped. With
  \<open>S = 100\<close>, \<open>K = 10\<close>, \<open>T = 1\<close>, \<open>r = 0.5\<close>, \<open>sigma = 0.2\<close>, \<open>q = 0\<close>, \<open>N = 1\<close>, a
  call, every precondition holds, \<open>p\<close> is greater than 1, and the value returned is the
  discounted sum of the two child values with the weights \<open>p > 1\<close> and \<open>1 - p < 0\<close>.
\<close>

theorem probability_never_clamped:
  "risk_neutral_p 1 (1/2) (1/5) 0 1 = Fin (p_real 1 (1/2) (1/5) 0 1)
   \<and> 1 < p_real 1 (1/2) (1/5) 0 1
   \<and> 1 - p_real 1 (1/2) (1/5) 0 1 < 0
   \<and> american_option_binomial 100 10 1 (1/2) (1/5) 0 1 ''call'' =
       Inr (Fin ((p_real 1 (1/2) (1/5) 0 1 * (100 * exp (1/5) - 10)
                  + (1 - p_real 1 (1/2) (1/5) 0 1) * (100 / exp (1/5) - 10)) * exp (- (1/2))))"
proof -
  define u :: real where "u = exp (1/5)"
  define p where "p = p_real 1 (1/2) (1/5) 0 1"
  define a where "a = 1 / u"
  define b where "b = 1 / u / u"
  have u: "1 < u" by (simp add: u_def)
  have ab: "4/5 \<le> a" "a < 1" "b < a"
    unfolding a_def b_def u_def by (rule exp_fifth_bounds)+
  have pe: "p = (exp (1/2 - 0) - 1 / u) / (u - 1 / u)"
    by (simp add: p_def unit_quantities u_def)
  have fin: "risk_neutral_p 1 (1/2) (1/5) 0 1 = Fin p"
    unfolding p_def by (rule finite_p) simp_all
  have "u < exp (1/2)" unfolding u_def by simp
  then have "u - a < exp (1/2) - a" by simp
  moreover have pos: "0 < u - a" using u ab by linarith
  ultimately have p1: "1 < p"
    unfolding pe a_def [symmetric] by (simp add: less_divide_eq)
  have K: "10 \<le> 100 / u"
  proof -
    have "100 / u = 100 * a" by (simp add: a_def)
    then show ?thesis using ab by linarith
  qed
  note step = one_step_call [of "1/5" 100 10 "1/2" 0, folded u_def, folded pe, OF _ _ K]
  have m: "p * (100 * u - 10) + (1 - p) * (100 / u - 10) = 100 * exp (1/2) - 10"
    using step(2) by simp
  have "exp (1/2) * exp (- (1/2)) = (1::real)" by (simp add: exp_minus)
  then have c: "(100 * exp (1/2) - 10) * exp (- (1/2)) = 100 - 10 * exp (- (1/2::real))"
    by (simp add: algebra_simps)
  have "exp (- (1/2)) \<le> (1::real)" by simp
  then have c90: "90 \<le> (100 * exp (1/2) - 10) * exp (- (1/2::real))"
    unfolding c by linarith
  have x: "intrinsic ''call'' 10 (100 / u / u) \<le> 90"
  proof -
    have "100 / u / u = 100 * b" by (simp add: b_def)
    then have "100 / u / u - 10 \<le> 90" using ab by linarith
    then show ?thesis by (simp add: intrinsic_def)
  qed
  have "american_option_binomial 100 10 1 (1/2) (1/5) 0 1 ''call'' =
      Inr (Fin (max ((p * (100 * u - 10) + (1 - p) * (100 / u - 10)) * exp (- (1/2)))
                    (intrinsic ''call'' 10 (100 / u / u))))"
    using step(1) by simp
  also have "max ((p * (100 * u - 10) + (1 - p) * (100 / u - 10)) * exp (- (1/2)))
                 (intrinsic ''call'' 10 (100 / u / u))
      = (p * (100 * u - 10) + (1 - p) * (100 / u - 10)) * exp (- (1/2))"
    unfolding m using c90 x by (intro max_absorb1) linarith
  finally have "american_option_binomial 100 10 1 (1/2) (1/5) 0 1 ''call'' =
      Inr (Fin ((p * (100 * u - 10) + (1 - p) * (100 / u - 10)) * exp (- (1/2))))" .
  then show ?thesis
    using fin p1 unfolding p_def u_def by simp
qed

text \<open>
  Claim C7 asks for a call price of at least \<open>max (spot - strike) 0\<close>. With \<open>S = 100\<close>,
  \<open>K = 10\<close>, \<open>T = 1\<close>, \<open>r = 0\<close>, \<open>sigma = 0.2\<close>, \<open>q = 0.1\<close>, \<open>N = 1\<close> the
  function returns \<open>100 * exp (-0.1) - 10\<close>, which is less than 90: the exercise value
  of the root is taken at the price \<open>S / u\<^sup>2\<close> instead of \<open>S\<close>.
\<close>

theorem call_below_exercise_value:
  "american_option_binomial 100 10 1 0 (1/5) (1/10) 1 ''call'' = Inr (Fin (100 * exp (- (1/10)) - 10))
   \<and> 100 * exp (- (1/10)) - 10 < max (100 - 10) (0::real)"
proof -
  define u :: real where "u = exp (1/5)"
  define a where "a = 1 / u"
  define b where "b = 1 / u / u"
  define g :: real where "g = exp (- (1/10))"
  have ab: "4/5 \<le> a" "a < 1" "b < a"
    unfolding a_def b_def u_def by (rule exp_fifth_bounds)+
  have g1: "g < 1" by (simp add: g_def)
  have "1 + (- (1/10)) \<le> exp (- (1/10::real))" by (rule exp_ge_add_one_self)
  then have g9: "9/10 \<le> g" by (simp add: g_def)
  have "a = exp (- (1/5))" by (simp add: a_def u_def exp_minus inverse_eq_divide)
  moreover have "exp (- (1/5)) < exp (- (1/10::real))" by simp
  ultimately have ag: "a < g" by (simp add: g_def)
  have K: "10 \<le> 100 / u"
  proof -
    have "100 / u = 100 * a" by (simp add: a_def)
    then show ?thesis using ab by linarith
  qed
  have h: "(0::real) < 1/5" "(0::real) \<le> 100" by simp_all
  note step = one_step_call [of "1/5" 100 10 0 "1/10", folded u_def, OF h K]
  have x: "intrinsic ''call'' 10 (100 / u / u) \<le> 100 * g - 10"
  proof -
    have e: "100 / u / u = 100 * b" by (simp add: b_def)
    have "100 / u / u - 10 \<le> 100 * g - 10" unfolding e using ab ag by linarith
    moreover have "0 \<le> 100 * g - 10" using g9 by linarith
    ultimately show ?thesis by (simp add: intrinsic_def)
  qed
  have "american_option_binomial 100 10 1 0 (1/5) (1/10) 1 ''call'' =
      Inr (Fin (max ((100 * exp (0 - 1/10) - 10) * exp (- 0))
                    (intrinsic ''call'' 10 (100 / u / u))))"
    by (rule step(1) [unfolded step(2)])
  then have "american_option_binomial 100 10 1 0 (1/5) (1/10) 1 ''call'' =
      Inr (Fin (max (100 * g - 10) (intrinsic ''call'' 10 (100 / u / u))))"
    by (simp add: g_def)
  also have "max (100 * g - 10) (intrinsic ''call'' 10 (100 / u / u)) = 100 * g - 10"
    using x by (rule max_absorb1)
  finally have "american_option_binomial 100 10 1 0 (1/5) (1/10) 1 ''call'' = Inr (Fin (100 * g - 10))" .
  moreover have "100 * g - 10 < max (100 - 10) 0" using g1 by simp
  ultimately show ?thesis unfolding g_def by simp
qed

lemma power_ratio_less_one:
  assumes "1 < (u::real)" "0 < n"
  shows "(1 / u) ^ n / u ^ n < 1"
proof -
  have "1 < u ^ n" using assms by (simp add: one_less_power)
  moreover have "(1 / u) ^ n \<le> 1" using assms by (simp add: power_le_one)
  ultimately have "(1 / u) ^ n < u ^ n" by linarith
  moreover have "0 < u ^ n" using assms by simp
  ultimately show ?thesis by simp
qed

text \<open>
  Claim C1 asks for the price \<^verbatim>\<open>spot * u^j * d^(i-j)\<close> at node \<open>j\<close> of step \<open>i\<close>.
  The loop divides the price of the node with the same index by \<open>u\<close>, which gives
  \<^verbatim>\<open>spot * u^j * d^(N-j) / u^(N-i)\<close>. With the parameters of the notebook
  (\<open>S = 100\<close>, \<open>T = 1\<close>, \<open>sigma = 0.2\<close>, \<open>N = 50\<close>) the price left at step 0,
  node 0 is \<^verbatim>\<open>100 * d^50 / u^50\<close>, less than the \<^verbatim>\<open>100 * u^0 * d^0\<close> of
  the claim.
\<close>

theorem exercise_price_at_root:
  "up_factor 1 (1/5) 50 = Fin (up_real 1 (1/5) 50)
   \<and> map_sum id asset_prices (lattice_after 50 100 100 1 (1/20) (1/5) 0 50 ''put'')
       = Inr [Fin (100 * (1 / up_real 1 (1/5) 50) ^ 50 / up_real 1 (1/5) 50 ^ 50)]
   \<and> 100 * (1 / up_real 1 (1/5) 50) ^ 50 / up_real 1 (1/5) 50 ^ 50
       < 100 * up_real 1 (1/5) 50 ^ 0 * (1 / up_real 1 (1/5) 50) ^ (0 - 0)"
proof -
  define u where "u = up_real 1 (1/5) 50"
  have u: "1 < u" unfolding u_def by (rule up_real_gt_1) simp_all
  have "up_factor 1 (1/5) 50 = Fin u"
    unfolding u_def by (rule finite_quantities) simp_all
  moreover have "map_sum id asset_prices (lattice_after 50 100 100 1 (1/20) (1/5) 0 50 ''put'')
      = Inr [Fin (100 * (1 / u) ^ 50 / u ^ 50)]"
  proof -
    have k: "(50::nat) \<le> nat 50" by simp
    have h: "(0::real) < 1" "(0::int) < 50" "(0::real) < 1/5" by simp_all
    show ?thesis
      unfolding lattice_after_Fin [OF h k] u_def [symmetric]
      by (simp add: node_price_def)
  qed
  moreover have "100 * (1 / u) ^ 50 / u ^ 50 < 100 * u ^ 0 * (1 / u) ^ (0 - 0)"
  proof -
    have "(1 / u) ^ 50 / u ^ 50 < 1" using u by (intro power_ratio_less_one) simp_all
    then have "100 * ((1 / u) ^ 50 / u ^ 50) < 100 * 1" by (intro mult_strict_left_mono) simp_all
    then show ?thesis by simp
  qed
  ultimately show ?thesis unfolding u_def by blast
qed

section \<open>The lattice without early exercise\<close>

lemma backward_step_european_Fin:
  assumes "u \<noteq> 0"
  shows "backward_step_european (Fin u) (Fin p) (Fin disc) i
      \<lparr>asset_prices = map (\<lambda>j. Fin (a j)) [0..<Suc (Suc i)],
       option_values = map (\<lambda>j. Fin (v j)) [0..<Suc (Suc i)]\<rparr>
    = Inr \<lparr>asset_prices = map (\<lambda>j. Fin (a j / u)) [0..<Suc i],
           option_values = map (\<lambda>j. Fin ((p * v (Suc j) + (1 - p) * v j) * disc)) [0..<Suc i]\<rparr>"
proof -
  have prices: "map (\<lambda>x. fl_div x (Fin u)) (take (i + 1) (map (\<lambda>j. Fin (a j)) [0..<Suc (Suc i)]))
      = map (\<lambda>j. Fin (a j / u)) [0..<Suc i]"
    using assms by (simp add: take_map_upt del: upt_Suc)
  have up: "map (fl_mul (Fin p)) (tl (map (\<lambda>j. Fin (v j)) [0..<Suc (Suc i)]))
      = map (\<lambda>j. Fin (p * v (Suc j))) [0..<Suc i]"
    by (simp add: tl_map_upt del: upt_Suc)
  have down: "map (fl_mul (fl_sub (Fin 1) (Fin p))) (butlast (map (\<lambda>j. Fin (v j)) [0..<Suc (Suc i)]))
      = map (\<lambda>j. Fin ((1 - p) * v j)) [0..<Suc i]"
    by (simp add: butlast_map_upt fl_sub_def del: upt_Suc)
  have expectation: "broadcast2 fl_add (map (\<lambda>j. Fin (p * v (Suc j))) [0..<Suc i])
        (map (\<lambda>j. Fin ((1 - p) * v j)) [0..<Suc i])
      = Inr (map (\<lambda>j. Fin (p * v (Suc j) + (1 - p) * v j)) [0..<Suc i])"
    by (simp add: broadcast2_same map2_map_same del: upt_Suc)
  show ?thesis
    unfolding backward_step_european_def Let_def lattice.simps prices up down expectation sum.case
    by (simp del: upt_Suc)
qed

lemma backward_induction_european_append:
  "backward_induction_european u p discount (xs @ ys) st =
     (case backward_induction_european u p discount xs st of
        Inl e \<Rightarrow> Inl e
      | Inr st' \<Rightarrow> backward_induction_european u p discount ys st')"
  by (induction xs arbitrary: st) (simp_all split: sum.splits)

lemma backward_induction_european_Fin:
  assumes "u \<noteq> 0" "k \<le> n"
  shows "backward_induction_european (Fin u) (Fin p) (Fin disc) (take k (rev [0..<n]))
      \<lparr>asset_prices = map (\<lambda>j. Fin (node_price S u n 0 j)) [0..<Suc n],
       option_values = map (\<lambda>j. Fin (node_value_european S K u p disc ot n 0 j)) [0..<Suc n]\<rparr>
    = Inr \<lparr>asset_prices = map (\<lambda>j. Fin (node_price S u n k j)) [0..<Suc (n - k)],
           option_values = map (\<lambda>j. Fin (node_value_european S K u p disc ot n k j)) [0..<Suc (n - k)]\<rparr>"
  using assms(2)
proof (induction k)
  case 0
  show ?case by simp
next
  case (Suc k)
  then have k: "k < n" by simp
  have idx: "take (Suc k) (rev [0..<n]) = take k (rev [0..<n]) @ [n - Suc k]"
    using k by (simp add: take_Suc_conv_app_nth rev_nth)
  have len: "Suc (n - k) = Suc (Suc (n - Suc k))" using k by simp
  have IH: "backward_induction_european (Fin u) (Fin p) (Fin disc) (take k (rev [0..<n]))
      \<lparr>asset_prices = map (\<lambda>j. Fin (node_price S u n 0 j)) [0..<Suc n],
       option_values = map (\<lambda>j. Fin (node_value_european S K u p disc ot n 0 j)) [0..<Suc n]\<rparr>
    = Inr \<lparr>asset_prices = map (\<lambda>j. Fin (node_price S u n k j)) [0..<Suc (Suc (n - Suc k))],
           option_values = map (\<lambda>j. Fin (node_value_european S K u p disc ot n k j))
                             [0..<Suc (Suc (n - Suc k))]\<rparr>"
    using Suc.IH k unfolding len by simp
  show ?case
    unfolding idx backward_induction_european_append IH sum.case backward_induction_european.simps
      backward_step_european_Fin [OF assms(1)] node_price_Suc
    by (simp del: upt_Suc)
qed

lemma european_option_binomial_Fin:
  assumes "0 < T" "0 < N" "0 < sigma"
  shows "european_option_binomial S K T r sigma q N ot =
     Inr (Fin (node_value_european S K (up_real T sigma N) (p_real T r sigma q N) (disc_real T r N)
                 ot (nat N) (nat N) 0))"
proof -
  have T: "0 \<le> T" using assms by simp
  have u: "up_real T sigma N \<noteq> 0" by (simp add: up_real_def)
  have N: "N \<noteq> 0" using assms by simp
  have init: "initial_lattice S K T sigma N ot =
     \<lparr>asset_prices = map (\<lambda>j. Fin (node_price S (up_real T sigma N) (nat N) 0 j)) [0..<Suc (nat N)],
      option_values = map (\<lambda>j. Fin (node_value_european S K (up_real T sigma N) (p_real T r sigma q N)
                                   (disc_real T r N) ot (nat N) 0 j)) [0..<Suc (nat N)]\<rparr>"
    unfolding initial_lattice_Fin [OF T assms(2), where p = 0 and disc = 0] by simp
  have all: "take (nat N) (rev [0..<nat N]) = rev [0..<nat N]" by simp
  show ?thesis
    unfolding european_option_binomial_def loop_indices_def finite_quantities [OF T assms(2)]
      finite_p [OF assms] init
    using N backward_induction_european_Fin [OF u order_refl, of _ _ "nat N"]
    unfolding all by simp
qed

lemma european_node_le_american:
  assumes "0 \<le> p" "p \<le> 1" "0 \<le> disc"
  shows "node_value_european S K u p disc ot n k j \<le> node_value S K u p disc ot n k j"
proof (induction k arbitrary: j)
  case 0
  show ?case by simp
next
  case (Suc k)
  have "p * node_value_european S K u p disc ot n k (Suc j)
        \<le> p * node_value S K u p disc ot n k (Suc j)"
    using assms(1) Suc.IH by (rule mult_left_mono [rotated])
  moreover have "(1 - p) * node_value_european S K u p disc ot n k j
        \<le> (1 - p) * node_value S K u p disc ot n k j"
    using assms(2) Suc.IH by (intro mult_left_mono) simp_all
  ultimately have "(p * node_value_european S K u p disc ot n k (Suc j)
         + (1 - p) * node_value_european S K u p disc ot n k j) * disc
      \<le> (p * node_value S K u p disc ot n k (Suc j)
         + (1 - p) * node_value S K u p disc ot n k j) * disc"
    using assms(3) by (intro mult_right_mono add_mono)
  then show ?case by (simp add: le_max_iff_disj)
qed

text \<open>
  Claim C6, amended. For every input with \<open>spot > 0\<close>, \<open>strike > 0\<close>, \<open>maturity > 0\<close>,
  \<open>steps \<ge> 1\<close>, \<open>volatility > 0\<close>, a probability \<open>p\<close> that lies in \<open>[0, 1]\<close>, and for which
  the price and the price of the same backward induction without the maximum against
  the exercise value are both finite numbers, the first is at least the second. The
  probability is not clamped, and without \<open>0 \<le> p \<le> 1\<close> the comparison can fail.
\<close>

theorem american_at_least_european_when_finite:
  assumes "0 < S" "0 < K" "0 < T" "0 < N" "0 < sigma"
    and "risk_neutral_p T r sigma q N = Fin p" "0 \<le> p" "p \<le> 1"
    and "american_option_binomial S K T r sigma q N ot = Inr (Fin a)"
    and "european_option_binomial S K T r sigma q N ot = Inr (Fin e)"
  shows "e \<le> a"
proof -
  have p: "p_real T r sigma q N = p"
    using assms(6) unfolding finite_p [OF assms(3-5)] by simp
  have a: "a = node_value S K (up_real T sigma N) p (disc_real T r N) ot (nat N) (nat N) 0"
    using assms(9) unfolding american_option_binomial_Fin [OF assms(3-5)] p by simp
  have e: "e = node_value_european S K (up_real T sigma N) p (disc_real T r N) ot (nat N) (nat N) 0"
    using assms(10) unfolding european_option_binomial_Fin [OF assms(3-5)] p by simp
  have "0 \<le> disc_real T r N" by (simp add: disc_real_def)
  then show ?thesis
    unfolding a e using assms(7,8) by (intro european_node_le_american)
qed

theorem american_at_least_european_when_finite_witness:
  "(0::real) < 100 \<and> (0::real) < 1 \<and> (0::int) < 50 \<and> (0::real) < 1/5
   \<and> risk_neutral_p 1 (1/20) (1/5) 0 50 = Fin (p_real 1 (1/20) (1/5) 0 50)
   \<and> 0 \<le> p_real 1 (1/20) (1/5) 0 50 \<and> p_real 1 (1/20) (1/5) 0 50 \<le> 1
   \<and> american_option_binomial 100 100 1 (1/20) (1/5) 0 50 ''put''
       = Inr (Fin (node_value 100 100 (up_real 1 (1/5) 50) (p_real 1 (1/20) (1/5) 0 50)
                     (disc_real 1 (1/20) 50) ''put'' 50 50 0))
   \<and> european_option_binomial 100 100 1 (1/20) (1/5) 0 50 ''put''
       = Inr (Fin (node_value_european 100 100 (up_real 1 (1/5) 50) (p_real 1 (1/20) (1/5) 0 50)
                     (disc_real 1 (1/20) 50) ''put'' 50 50 0))
   \<and> node_value_european 100 100 (up_real 1 (1/5) 50) (p_real 1 (1/20) (1/5) 0 50)
        (disc_real 1 (1/20) 50) ''put'' 50 50 0
      \<le> node_value 100 100 (up_real 1 (1/5) 50) (p_real 1 (1/20) (1/5) 0 50)
        (disc_real 1 (1/20) 50) ''put'' 50 50 0"
proof -
  have h: "(0::real) < 100" "(0::real) < 1" "(0::int) < 50" "(0::real) < 1/5" by simp_all
  define u where "u = up_real 1 (1/5) 50"
  define g :: real where "g = exp ((1/20 - 0) * time_step 1 50)"
  have u: "1 < u" unfolding u_def using h(2-4) by (rule up_real_gt_1)
  note d = down_factor_bounds [OF u]
  have fin: "risk_neutral_p 1 (1/20) (1/5) 0 50 = Fin (p_real 1 (1/20) (1/5) 0 50)"
    using h(2-4) by (rule finite_p)
  have pe: "p_real 1 (1/20) (1/5) 0 50 = (g - 1 / u) / (u - 1 / u)"
    by (simp add: p_real_def g_def u_def)
  have g1: "1 \<le> g" by (simp add: g_def time_step_def)
  have "(1/200::real) \<le> sqrt (1/50)" by (rule real_le_rsqrt) (simp add: power2_eq_square)
  then have "(1/20 - 0) * time_step 1 50 \<le> 1/5 * sqrt (time_step 1 50)"
    by (simp add: time_step_def)
  then have gu: "g \<le> u" by (simp add: g_def u_def up_real_def)
  have pos: "0 < u - 1 / u" using u d by linarith
  have p0: "0 \<le> p_real 1 (1/20) (1/5) 0 50"
    unfolding pe using pos g1 d by (intro divide_nonneg_pos) linarith+
  have p1: "p_real 1 (1/20) (1/5) 0 50 \<le> 1"
    unfolding pe using pos gu by (simp add: divide_le_eq)
  have a: "american_option_binomial 100 100 1 (1/20) (1/5) 0 50 ''put''
       = Inr (Fin (node_value 100 100 (up_real 1 (1/5) 50) (p_real 1 (1/20) (1/5) 0 50)
                     (disc_real 1 (1/20) 50) ''put'' 50 50 0))"
    using american_option_binomial_Fin [OF h(2-4), of 100 100 "1/20" 0 "''put''"] by simp
  have e: "european_option_binomial 100 100 1 (1/20) (1/5) 0 50 ''put''
       = Inr (Fin (node_value_european 100 100 (up_real 1 (1/5) 50) (p_real 1 (1/20) (1/5) 0 50)
                     (disc_real 1 (1/20) 50) ''put'' 50 50 0))"
    using european_option_binomial_Fin [OF h(2-4), of 100 100 "1/20" 0 "''put''"] by simp
  show ?thesis
    using h fin p0 p1 a e
      american_at_least_european_when_finite [OF h(1) h(1) h(2) h(3) h(4) fin p0 p1 a e]
    by blast
qed

lemma node_price_le_spot:
  assumes "1 \<le> u" "0 \<le> S" "j \<le> n" "2 * j \<le> n + k"
  shows "node_price S u n k j \<le> S"
proof -
  have u0: "0 < u" using assms(1) by simp
  have "u ^ j \<le> u ^ (n - j + k)" using assms by (intro power_increasing) simp_all
  then have "u ^ j / u ^ (n - j + k) \<le> 1" using u0 by simp
  then have "S * (u ^ j / u ^ (n - j + k)) \<le> S * 1" using assms(2) by (intro mult_left_mono)
  moreover have "node_price S u n k j = S * (u ^ j / u ^ (n - j + k))"
    by (simp add: node_price_def power_add power_divide divide_simps)
  ultimately show ?thesis by simp
qed

lemma two_step_call_at_the_money:
  assumes "1 < u" "p \<le> 0"
  shows "node_value 100 100 u p 1 ''call'' 2 2 0 = 0"
    and "node_value_european 100 100 u p 1 ''call'' 2 2 0 = p * (p * (100 * u ^ 2 - 100))"
proof -
  define n :: nat where "n = 2"
  define w where "w = 100 * u ^ 2 - 100"
  have u1: "1 \<le> u" using assms by simp
  have out: "intrinsic ''call'' 100 (node_price 100 u n k j) = 0" if "j \<le> n" "2 * j \<le> n + k" for k j
    using node_price_le_spot [OF u1 _ that, of 100] by (intro intrinsic_call_out) simp
  have o: "intrinsic ''call'' 100 (node_price 100 u n 0 0) = 0"
      "intrinsic ''call'' 100 (node_price 100 u n 0 (Suc 0)) = 0"
      "intrinsic ''call'' 100 (node_price 100 u n (Suc 0) 0) = 0"
      "intrinsic ''call'' 100 (node_price 100 u n (Suc 0) (Suc 0)) = 0"
      "intrinsic ''call'' 100 (node_price 100 u n (Suc (Suc 0)) 0) = 0"
    by (rule out; simp add: n_def)+
  have "1 \<le> u ^ 2" using u1 by (rule one_le_power)
  then have w: "0 \<le> w" by (simp add: w_def)
  have "node_price 100 u n 0 (Suc (Suc 0)) = 100 * u ^ 2"
    by (simp add: node_price_def n_def power2_eq_square)
  then have top: "intrinsic ''call'' 100 (node_price 100 u n 0 (Suc (Suc 0))) = w"
    using w by (simp add: w_def intrinsic_call_in)
  have neg: "p * w \<le> 0" using assms(2) w by (rule mult_nonpos_nonneg)
  have v1: "node_value 100 100 u p 1 ''call'' n (Suc 0) 0 = 0"
      "node_value 100 100 u p 1 ''call'' n (Suc 0) (Suc 0) = 0"
    using neg by (simp_all add: o top)
  have v2: "node_value 100 100 u p 1 ''call'' n (Suc (Suc 0)) 0 = 0"
    unfolding node_value.simps(2) [of _ _ _ _ _ _ _ "Suc 0"] v1 o by simp
  show "node_value 100 100 u p 1 ''call'' 2 2 0 = 0"
    using v2 unfolding n_def numeral_2_eq_2 .
  have e1: "node_value_european 100 100 u p 1 ''call'' n (Suc 0) 0 = 0"
      "node_value_european 100 100 u p 1 ''call'' n (Suc 0) (Suc 0) = p * w"
    by (simp_all add: o top)
  have e2: "node_value_european 100 100 u p 1 ''call'' n (Suc (Suc 0)) 0 = p * (p * w)"
    unfolding node_value_european.simps(2) [of _ _ _ _ _ _ _ "Suc 0"] e1 by simp
  show "node_value_european 100 100 u p 1 ''call'' 2 2 0 = p * (p * (100 * u ^ 2 - 100))"
    using e2 unfolding n_def w_def numeral_2_eq_2 .
qed

text \<open>
  Claim C6 as stated fails: with \<open>S = K = 100\<close>, \<open>T = 2\<close>, \<open>r = 0\<close>, \<open>sigma = 0.2\<close>,
  \<open>q = 0.5\<close>, \<open>N = 2\<close>, a call, every precondition holds, \<open>p\<close> is negative, the
  American price is 0 and the price without early exercise is positive.
\<close>

theorem european_above_american:
  "american_option_binomial 100 100 2 0 (1/5) (1/2) 2 ''call'' = Inr (Fin 0)
   \<and> european_option_binomial 100 100 2 0 (1/5) (1/2) 2 ''call''
       = Inr (Fin (p_real 2 0 (1/5) (1/2) 2 * (p_real 2 0 (1/5) (1/2) 2 * (100 * (exp (1/5))\<^sup>2 - 100))))
   \<and> 0 < p_real 2 0 (1/5) (1/2) 2 * (p_real 2 0 (1/5) (1/2) 2 * (100 * (exp (1/5))\<^sup>2 - 100))
   \<and> risk_neutral_p 2 0 (1/5) (1/2) 2 = Fin (p_real 2 0 (1/5) (1/2) 2)
   \<and> p_real 2 0 (1/5) (1/2) 2 < 0"
proof -
  define u :: real where "u = exp (1/5)"
  define p where "p = p_real 2 0 (1/5) (1/2) 2"
  have h: "(0::real) < 2" "(0::int) < 2" "(0::real) < 1/5" by simp_all
  have ts: "time_step 2 2 = 1" by (simp add: time_step_def)
  have ur: "up_real 2 (1/5) 2 = u" by (simp add: up_real_def ts u_def)
  have dr: "disc_real 2 0 2 = 1" by (simp add: disc_real_def)
  have u: "1 < u" by (simp add: u_def)
  note d = down_factor_bounds [OF u]
  have pe: "p = (exp (- (1/2)) - 1 / u) / (u - 1 / u)"
    by (simp add: p_def p_real_def ts ur)
  have "1 / u = exp (- (1/5))" by (simp add: u_def exp_minus inverse_eq_divide)
  moreover have "exp (- (1/2)) < exp (- (1/5::real))" by simp
  ultimately have num: "exp (- (1/2)) - 1 / u < 0" by simp
  have pos: "0 < u - 1 / u" using u d by linarith
  have p0: "p < 0" unfolding pe using num pos by (rule divide_neg_pos)
  have fin: "risk_neutral_p 2 0 (1/5) (1/2) 2 = Fin p"
    unfolding p_def using h by (rule finite_p)
  have two: "nat 2 = 2" by simp
  have "1 < u ^ 2" using u by (simp add: one_less_power)
  then have w: "0 < 100 * u\<^sup>2 - 100" by simp
  have "0 < (- p) * ((- p) * (100 * u\<^sup>2 - 100))" using p0 w by (intro mult_pos_pos) simp_all
  then have epos: "0 < p * (p * (100 * u\<^sup>2 - 100))" by simp
  have p0': "p \<le> 0" using p0 by simp
  have a: "american_option_binomial 100 100 2 0 (1/5) (1/2) 2 ''call'' = Inr (Fin 0)"
    unfolding american_option_binomial_Fin [OF h] ur dr two p_def [symmetric]
      two_step_call_at_the_money(1) [OF u p0'] ..
  have e: "european_option_binomial 100 100 2 0 (1/5) (1/2) 2 ''call''
      = Inr (Fin (p * (p * (100 * u\<^sup>2 - 100))))"
    unfolding european_option_binomial_Fin [OF h] ur dr two p_def [symmetric]
      two_step_call_at_the_money(2) [OF u p0'] ..
  show ?thesis
    using a e epos fin p0 unfolding p_def u_def by blast
qed

end
